theory Spec2Isabelle
  imports Complex_Main "HOL-Library.FSet" "HOL-Library.AList"
begin

section \<open>Data model\<close>

text \<open>
  The ranking engine of \<^verbatim>\<open>pagerank.py\<close>: \<^verbatim>\<open>transition_model\<close>,
  \<^verbatim>\<open>sample_pagerank\<close> and \<^verbatim>\<open>iterate_pagerank\<close>.

  A Python \<^verbatim>\<open>dict\<close> keeps its keys in insertion order and never holds a key twice.
  It is an association list here; that its keys are distinct is the hypothesis
  \<open>distinct (dict_keys m)\<close> of the theorems below. A Python \<^verbatim>\<open>set\<close> is a finite set.
  Python floats are read as real numbers: rounding is not modelled.
\<close>

datatype error = KeyError | IndexError | ZeroDivisionError | ValueError

type_synonym 'a corpus = "('a \<times> 'a fset) list"

type_synonym 'a dist = "('a \<times> real) list"

definition bindE :: "error + 'a \<Rightarrow> ('a \<Rightarrow> error + 'b) \<Rightarrow> error + 'b" where
  "bindE m f = (case m of Inl e \<Rightarrow> Inl e | Inr v \<Rightarrow> f v)"

text \<open>A \<^verbatim>\<open>for\<close> loop over a list whose body may raise: the first error ends the loop.\<close>

fun foldE :: "('x \<Rightarrow> 's \<Rightarrow> error + 's) \<Rightarrow> 'x list \<Rightarrow> 's \<Rightarrow> error + 's" where
  "foldE f [] s = Inr s"
| "foldE f (x # xs) s = bindE (f x s) (foldE f xs)"

definition dict_keys :: "('k \<times> 'v) list \<Rightarrow> 'k list" where
  "dict_keys m = map fst m"

definition dict_values :: "('k \<times> 'v) list \<Rightarrow> 'v list" where
  "dict_values m = map snd m"

text \<open>\<^verbatim>\<open>m[k]\<close> raises KeyError on a missing key.\<close>

definition getitem :: "('k \<times> 'v) list \<Rightarrow> 'k \<Rightarrow> error + 'v" where
  "getitem m k = (case map_of m k of None \<Rightarrow> Inl KeyError | Some v \<Rightarrow> Inr v)"

text \<open>\<^verbatim>\<open>m[k] = v\<close> overwrites in place, or appends a new key at the end.\<close>

definition setitem :: "('k \<times> 'v) list \<Rightarrow> 'k \<Rightarrow> 'v \<Rightarrow> ('k \<times> 'v) list" where
  "setitem m k v = AList.update k v m"

text \<open>\<^verbatim>\<open>x / y\<close> raises ZeroDivisionError when \<open>y\<close> is zero.\<close>

definition truediv :: "real \<Rightarrow> real \<Rightarrow> error + real" where
  "truediv x y = (if y = 0 then Inl ZeroDivisionError else Inr (x / y))"

section \<open>Transition model\<close>

definition transition_model :: "'a corpus \<Rightarrow> 'a \<Rightarrow> real \<Rightarrow> error + 'a dist" where
  "transition_model corpus page damping_factor =
    bindE (getitem corpus page) (\<lambda>links.
    bindE (truediv (1 - damping_factor) (real (length (dict_keys corpus)))) (\<lambda>split_prob.
    bindE (truediv 1 (real (length (dict_keys corpus)))) (\<lambda>equal_prob.
    if links \<noteq> {||} then
      bindE (truediv damping_factor (real (fcard links))) (\<lambda>damping_prob.
        foldE (\<lambda>key prob_distribution.
            bindE (getitem corpus page) (\<lambda>outs.
            if key |\<notin>| outs then Inr (setitem prob_distribution key split_prob)
            else Inr (setitem prob_distribution key (damping_prob + split_prob))))
          (dict_keys corpus) [])
    else
      foldE (\<lambda>key prob_distribution. Inr (setitem prob_distribution key equal_prob))
        (dict_keys corpus) [])))"

section \<open>Random source\<close>

text \<open>
  The process-wide generator of \<^verbatim>\<open>random\<close> is an explicit state: the sequence of
  numbers \<^verbatim>\<open>random()\<close> will return and the position of the next one. A generator
  is valid when every number lies in \<open>[0, 1)\<close>.
\<close>

record rng =
  source :: "nat \<Rightarrow> real"
  pos :: nat

definition valid_rng :: "rng \<Rightarrow> bool" where
  "valid_rng g \<longleftrightarrow> (\<forall>i. 0 \<le> source g i \<and> source g i < 1)"

definition random_random :: "rng \<Rightarrow> real \<times> rng" where
  "random_random g = (source g (pos g), g\<lparr>pos := Suc (pos g)\<rparr>)"

text \<open>
  \<^verbatim>\<open>random.choice(seq)\<close>: IndexError on an empty sequence, otherwise the element at
  an index below \<open>len(seq)\<close> drawn from the generator.
\<close>

definition random_choice :: "'a list \<Rightarrow> rng \<Rightarrow> error + ('a \<times> rng)" where
  "random_choice seq g =
    (if seq = [] then Inl IndexError
     else (let (u, g') = random_random g
           in Inr (seq ! nat \<lfloor>u * real (length seq)\<rfloor>, g')))"

text \<open>\<^verbatim>\<open>itertools.accumulate\<close>: the running sums of the weights.\<close>

fun accumulate_from :: "real \<Rightarrow> real list \<Rightarrow> real list" where
  "accumulate_from t [] = []"
| "accumulate_from t (w # ws) = (t + w) # accumulate_from (t + w) ws"

definition accumulate :: "real list \<Rightarrow> real list" where
  "accumulate ws = accumulate_from 0 ws"

text \<open>\<^verbatim>\<open>bisect.bisect_right(a, x, lo, hi)\<close>, the binary search of the standard library.\<close>

function bisect :: "real list \<Rightarrow> real \<Rightarrow> nat \<Rightarrow> nat \<Rightarrow> nat" where
  "bisect a x lo hi =
    (if lo < hi then
       (let mid = (lo + hi) div 2
        in if x < a ! mid then bisect a x lo mid else bisect a x (mid + 1) hi)
     else lo)"
  by pat_completeness auto
termination
  by (relation "measure (\<lambda>(a, x, lo, hi). hi - lo)") auto

declare bisect.simps [simp del]

text \<open>
  \<^verbatim>\<open>random.choices(population, weights, k=1)[0]\<close>: ValueError when the number of
  weights differs from the population or their total is not positive, otherwise the
  element whose cumulative weight is the first above \<open>random() * total\<close>.
\<close>

definition random_choices :: "'a list \<Rightarrow> real list \<Rightarrow> rng \<Rightarrow> error + ('a \<times> rng)" where
  "random_choices population weights g =
    (let n = length population; cum_weights = accumulate weights
     in if length cum_weights \<noteq> n then Inl ValueError
        else if cum_weights = [] then Inl IndexError
        else (let total = last cum_weights
              in if total \<le> 0 then Inl ValueError
                 else (let (u, g') = random_random g
                       in Inr (population ! bisect cum_weights (u * total) 0 (n - 1), g'))))"

section \<open>Sampling estimator\<close>

text \<open>
  The state of the walk: the visit counts, the current page and the generator. The counts
  are Python ints until the last loop divides them; they are kept as reals throughout.
\<close>

definition sample_step ::
  "'a corpus \<Rightarrow> real \<Rightarrow> 'a dist \<times> 'a \<times> rng \<Rightarrow> error + ('a dist \<times> 'a \<times> rng)" where
  "sample_step corpus damping_factor = (\<lambda>(page_distribution, sample, g).
    bindE (getitem page_distribution sample) (\<lambda>c.
    bindE (transition_model corpus sample damping_factor) (\<lambda>prob_distribution.
    bindE (random_choices (dict_keys prob_distribution) (dict_values prob_distribution) g)
      (\<lambda>(sample', g').
    Inr (setitem page_distribution sample (c + 1), sample', g')))))"

definition normalize_counts :: "'a dist \<Rightarrow> int \<Rightarrow> error + 'a dist" where
  "normalize_counts page_distribution n =
    foldE (\<lambda>page pd.
        bindE (getitem pd page) (\<lambda>c.
        bindE (truediv c (real_of_int n)) (\<lambda>v.
        Inr (setitem pd page v))))
      (dict_keys page_distribution) page_distribution"

definition sample_pagerank :: "'a corpus \<Rightarrow> real \<Rightarrow> int \<Rightarrow> rng \<Rightarrow> error + 'a dist" where
  "sample_pagerank corpus damping_factor n g =
    bindE (foldE (\<lambda>page pd. Inr (setitem pd page 0)) (dict_keys corpus) [])
      (\<lambda>page_distribution.
    bindE (random_choice (dict_keys corpus) g) (\<lambda>(sample, g1).
    bindE (foldE (\<lambda>i. sample_step corpus damping_factor) [1..<nat n]
            (page_distribution, sample, g1))
      (\<lambda>(page_distribution, sample, g2).
    normalize_counts page_distribution n)))"

text \<open>
  The positions of the walk, for stating what the estimator tallies: the page where the
  walk stands, followed by the positions after each of \<open>k\<close> draws.
\<close>

fun walk :: "'a corpus \<Rightarrow> real \<Rightarrow> nat \<Rightarrow> 'a \<Rightarrow> rng \<Rightarrow> error + 'a list" where
  "walk corpus damping_factor 0 sample g = Inr [sample]"
| "walk corpus damping_factor (Suc k) sample g =
    bindE (transition_model corpus sample damping_factor) (\<lambda>prob_distribution.
    bindE (random_choices (dict_keys prob_distribution) (dict_values prob_distribution) g)
      (\<lambda>(sample', g').
    bindE (walk corpus damping_factor k sample' g') (\<lambda>ps.
    Inr (sample # ps))))"

definition walk_positions :: "'a corpus \<Rightarrow> real \<Rightarrow> int \<Rightarrow> rng \<Rightarrow> error + 'a list" where
  "walk_positions corpus damping_factor n g =
    bindE (random_choice (dict_keys corpus) g) (\<lambda>(sample, g1).
    walk corpus damping_factor (nat (n - 1)) sample g1)"

text \<open>The invariant of the graph: no link leaves the corpus.\<close>

definition links_closed :: "'a corpus \<Rightarrow> bool" where
  "links_closed corpus \<longleftrightarrow> (\<forall>(q, outs) \<in> set corpus. fset outs \<subseteq> set (dict_keys corpus))"

text \<open>One draw of the walk: the transition model of the current page, then a weighted choice.\<close>

definition draw :: "'a corpus \<Rightarrow> real \<Rightarrow> 'a \<Rightarrow> rng \<Rightarrow> error + ('a \<times> rng)" where
  "draw corpus damping_factor sample g =
    bindE (transition_model corpus sample damping_factor) (\<lambda>prob_distribution.
    random_choices (dict_keys prob_distribution) (dict_values prob_distribution) g)"

section \<open>Iterative solver\<close>

text \<open>The inner loop: the sum over the pages \<open>link\<close> whose out-set holds \<open>page\<close>.\<close>

definition link_sum :: "'a corpus \<Rightarrow> 'a dist \<Rightarrow> 'a \<Rightarrow> error + real" where
  "link_sum corpus page_distribution page =
    foldE (\<lambda>link sum.
        bindE (getitem corpus link) (\<lambda>outs.
        if page |\<in>| outs then
          bindE (getitem page_distribution link) (\<lambda>r.
          bindE (truediv r (real (fcard outs))) (\<lambda>q.
          Inr (sum + q)))
        else Inr sum))
      (dict_keys corpus) 0"

text \<open>The body of the loop over the pages: the new rank of \<open>page\<close>, written back at once.\<close>

definition update_page ::
  "'a corpus \<Rightarrow> real \<Rightarrow> 'a \<Rightarrow> nat \<times> 'a dist \<Rightarrow> error + (nat \<times> 'a dist)" where
  "update_page corpus damping_factor page = (\<lambda>(convergence_count, page_distribution).
    bindE (truediv (1 - damping_factor) (real (length corpus))) (\<lambda>new_rank.
    bindE (link_sum corpus page_distribution page) (\<lambda>sum.
    let sum = sum * damping_factor;
        new_rank = new_rank + sum
    in bindE (getitem page_distribution page) (\<lambda>old.
       Inr (if \<bar>new_rank - old\<bar> < 1 / 1000 then convergence_count + 1 else convergence_count,
            setitem page_distribution page new_rank)))))"

definition sweep :: "'a corpus \<Rightarrow> real \<Rightarrow> 'a dist \<Rightarrow> error + (nat \<times> 'a dist)" where
  "sweep corpus damping_factor page_distribution =
    foldE (update_page corpus damping_factor) (dict_keys corpus) (0, page_distribution)"

text \<open>
  \<^verbatim>\<open>while True\<close>: the loop has no bound, so the result is optional and \<open>None\<close>
  stands for a run that never returns.
\<close>

partial_function (option) iterate_loop ::
  "'a corpus \<Rightarrow> real \<Rightarrow> 'a dist \<Rightarrow> (error + 'a dist) option" where
  "iterate_loop corpus damping_factor page_distribution =
    (case sweep corpus damping_factor page_distribution of
       Inl e \<Rightarrow> Some (Inl e)
     | Inr (convergence_count, page_distribution') \<Rightarrow>
         if convergence_count = length corpus then Some (Inr page_distribution')
         else iterate_loop corpus damping_factor page_distribution')"

declare iterate_loop.simps [code]

definition initial_ranks :: "'a corpus \<Rightarrow> error + 'a dist" where
  "initial_ranks corpus =
    foldE (\<lambda>page pd.
        bindE (truediv 1 (real (length corpus))) (\<lambda>v.
        Inr (setitem pd page v)))
      (dict_keys corpus) []"

definition iterate_pagerank :: "'a corpus \<Rightarrow> real \<Rightarrow> (error + 'a dist) option" where
  "iterate_pagerank corpus damping_factor =
    (case initial_ranks corpus of
       Inl e \<Rightarrow> Some (Inl e)
     | Inr page_distribution \<Rightarrow> iterate_loop corpus damping_factor page_distribution)"

section \<open>The recurrence of the iterative solver, for stating its properties\<close>

text \<open>The rank a mapping holds for a page (0 for a page it does not hold).\<close>

definition rank_of :: "'a dist \<Rightarrow> 'a \<Rightarrow> real" where
  "rank_of page_distribution q = (case map_of page_distribution q of None \<Rightarrow> 0 | Some r \<Rightarrow> r)"

text \<open>
  The recurrence: \<open>(1 - d) / N\<close> plus \<open>d\<close> times the sum, over the entries of the corpus
  whose out-set holds \<open>p\<close>, of the rank of the entry's page divided by the size of its
  out-set.
\<close>

definition rank_recurrence :: "'a corpus \<Rightarrow> real \<Rightarrow> 'a dist \<Rightarrow> 'a \<Rightarrow> real" where
  "rank_recurrence corpus d page_distribution p =
    (1 - d) / real (length corpus)
    + d * sum_list (map (\<lambda>(q, outs). rank_of page_distribution q / real (fcard outs))
                     (filter (\<lambda>(q, outs). p |\<in>| outs) corpus))"

text \<open>
  One sweep in place: each page is rewritten in turn, from the mapping as the updates before
  it have left it. \<open>tolerance_count\<close> counts the updates that move a rank by less than
  0.001.
\<close>

fun in_place_sweep :: "'a corpus \<Rightarrow> real \<Rightarrow> 'a list \<Rightarrow> 'a dist \<Rightarrow> 'a dist" where
  "in_place_sweep corpus d [] pd = pd"
| "in_place_sweep corpus d (p # ps) pd =
    in_place_sweep corpus d ps (setitem pd p (rank_recurrence corpus d pd p))"

fun tolerance_count :: "'a corpus \<Rightarrow> real \<Rightarrow> 'a list \<Rightarrow> 'a dist \<Rightarrow> nat" where
  "tolerance_count corpus d [] pd = 0"
| "tolerance_count corpus d (p # ps) pd =
    (if \<bar>rank_recurrence corpus d pd p - rank_of pd p\<bar> < 1 / 1000 then 1 else 0)
    + tolerance_count corpus d ps (setitem pd p (rank_recurrence corpus d pd p))"

text \<open>
  One sweep of the synchronous reference recurrence, in the words of the specification:
  every page is rewritten from the ranks of the previous sweep.
\<close>

definition synchronous_sweep :: "'a corpus \<Rightarrow> real \<Rightarrow> 'a dist \<Rightarrow> 'a dist" where
  "synchronous_sweep corpus d previous =
    fold (\<lambda>p pd. setitem pd p (rank_recurrence corpus d previous p)) (dict_keys corpus) previous"

section \<open>The run of the iterative solver and the law of the walk, for stating properties\<close>

text \<open>
  The state of the solver after \<open>k\<close> sweeps of the \<^verbatim>\<open>while\<close> loop none of which ended
  it: \<open>None\<close> when one of them raised or met the test \<^verbatim>\<open>convergence_count == num_pages\<close>.
\<close>

fun unconverged_sweeps :: "'a corpus \<Rightarrow> real \<Rightarrow> nat \<Rightarrow> 'a dist \<Rightarrow> 'a dist option" where
  "unconverged_sweeps corpus d 0 page_distribution = Some page_distribution"
| "unconverged_sweeps corpus d (Suc k) page_distribution =
    (case sweep corpus d page_distribution of
       Inl e \<Rightarrow> None
     | Inr (convergence_count, page_distribution') \<Rightarrow>
         if convergence_count = length corpus then None
         else unconverged_sweeps corpus d k page_distribution')"

text \<open>
  The probability that a draw from page \<open>p\<close> lands on page \<open>q\<close>: the weight the transition
  model gives \<open>q\<close>. The weights of a page total 1, and \<^verbatim>\<open>random.choices\<close> picks \<open>q\<close> when
  \<^verbatim>\<open>random()\<close> falls in an interval whose length is the weight of \<open>q\<close>.
\<close>

definition step_prob :: "'a corpus \<Rightarrow> real \<Rightarrow> 'a \<Rightarrow> 'a \<Rightarrow> real" where
  "step_prob corpus d p q =
    (case transition_model corpus p d of Inl e \<Rightarrow> 0 | Inr prob_distribution \<Rightarrow> rank_of prob_distribution q)"

text \<open>
  The law of the walk when the numbers of the generator are independent and uniform on
  \<open>[0, 1)\<close>. \<open>expect_from corpus d k p f\<close> is the expected value of \<open>f\<close> on the positions of a
  walk that stands on \<open>p\<close> and makes \<open>k\<close> draws; \<open>expect_walk corpus d n f\<close> is the expected
  value of \<open>f\<close> on the \<open>n\<close> positions of the walk of the sampling estimator, whose start
  page is each page with probability \<open>1 / N\<close> (\<^verbatim>\<open>random.choice\<close>). The expected value of an
  indicator is the probability of its event.

  \<open>rank_from_positions n ps page\<close> is the rank the estimator returns for \<open>page\<close> when the
  walk visits the positions \<open>ps\<close>; \<open>lead t ps\<close> counts the positions on \<open>t\<close> minus the others.
\<close>

fun expect_from :: "'a corpus \<Rightarrow> real \<Rightarrow> nat \<Rightarrow> 'a \<Rightarrow> ('a list \<Rightarrow> real) \<Rightarrow> real" where
  "expect_from corpus d 0 p f = f [p]"
| "expect_from corpus d (Suc k) p f =
    sum_list (map (\<lambda>q. step_prob corpus d p q * expect_from corpus d k q (\<lambda>ps. f (p # ps)))
                (dict_keys corpus))"

definition expect_walk :: "'a corpus \<Rightarrow> real \<Rightarrow> int \<Rightarrow> ('a list \<Rightarrow> real) \<Rightarrow> real" where
  "expect_walk corpus d n f =
    sum_list (map (\<lambda>p. 1 / real (length (dict_keys corpus)) * expect_from corpus d (nat (n - 1)) p f)
                (dict_keys corpus))"

definition rank_from_positions :: "int \<Rightarrow> 'a list \<Rightarrow> 'a \<Rightarrow> real" where
  "rank_from_positions n ps page = real (count_list (butlast ps) page) / real_of_int n"

definition lead :: "'a \<Rightarrow> 'a list \<Rightarrow> real" where
  "lead t ps = sum_list (map (\<lambda>p. if p = t then 1 else - 1) ps)"

section \<open>Basic facts about the embedding\<close>

lemma bindE_Inr [simp]: "bindE (Inr v) f = f v"
  by (simp add: bindE_def)

lemma bindE_Inl [simp]: "bindE (Inl e) f = Inl e"
  by (simp add: bindE_def)

lemma dict_keys_simps [simp]:
  "dict_keys [] = []" "dict_keys (p # m) = fst p # dict_keys m"
  by (simp_all add: dict_keys_def)

lemma dict_values_simps [simp]:
  "dict_values [] = []" "dict_values (p # m) = snd p # dict_values m"
  by (simp_all add: dict_values_def)

lemma getitem_eq_Inr: "getitem m k = Inr v \<longleftrightarrow> map_of m k = Some v"
  by (simp add: getitem_def split: option.splits)

lemma setitem_fresh:
  "k \<notin> set (dict_keys m) \<Longrightarrow> setitem m k v = m @ [(k, v)]"
  by (induction m) (auto simp: setitem_def)

lemma foldE_build:
  "distinct ks \<Longrightarrow> set ks \<inter> set (dict_keys acc) = {} \<Longrightarrow>
   foldE (\<lambda>k m. Inr (setitem m k (g k))) ks acc = Inr (acc @ map (\<lambda>k. (k, g k)) ks)"
proof (induction ks arbitrary: acc)
  case Nil
  then show ?case by simp
next
  case (Cons k ks)
  have fresh: "k \<notin> set (dict_keys acc)" using Cons.prems by auto
  have "set ks \<inter> set (dict_keys (acc @ [(k, g k)])) = {}"
    using Cons.prems by (auto simp: dict_keys_def)
  with Cons.IH [of "acc @ [(k, g k)]"] Cons.prems fresh show ?case
    by (simp add: setitem_fresh)
qed

section \<open>Properties of the transition model\<close>

lemma transition_model_eq:
  assumes "distinct (dict_keys corpus)" and "map_of corpus page = Some links"
  shows "transition_model corpus page d =
    Inr (map (\<lambda>k. (k,
        if links = {||} then 1 / real (length (dict_keys corpus))
        else if k |\<in>| links
          then d / real (fcard links) + (1 - d) / real (length (dict_keys corpus))
          else (1 - d) / real (length (dict_keys corpus))))
      (dict_keys corpus))"
proof -
  have g: "getitem corpus page = Inr links"
    using assms(2) by (simp add: getitem_eq_Inr)
  have "corpus \<noteq> []" using assms(2) by auto
  then have n: "real (length (dict_keys corpus)) \<noteq> 0"
    by (simp add: dict_keys_def)
  show ?thesis
  proof (cases "links = {||}")
    case True
    then show ?thesis using g n assms(1)
      by (simp add: transition_model_def truediv_def foldE_build)
  next
    case False
    then have "fcard links \<noteq> 0" by (simp add: fcard_0_eq)
    then have l: "real (fcard links) \<noteq> 0" by simp
    have body: "(\<lambda>key prob_distribution.
            if key |\<notin>| links then Inr (setitem prob_distribution key sp)
            else Inr (setitem prob_distribution key (dp + sp)))
       = (\<lambda>k m. Inr (setitem m k (if k |\<in>| links then dp + sp else sp)) :: error + 'a dist)"
      for sp dp :: real
      by (intro ext) simp
    show ?thesis using False g n l assms(1)
      by (simp add: transition_model_def truediv_def body foldE_build)
  qed
qed


text \<open>
  Claim C1. For a page of the corpus with out-set \<open>links\<close>, in a corpus of \<open>N\<close> pages and
  with a damping factor \<open>d\<close> in \<open>(0, 1)\<close>: when \<open>links\<close> is not empty and has \<open>L\<close>
  members, the transition model gives \<open>d / L + (1 - d) / N\<close> to each page in \<open>links\<close>
  and \<open>(1 - d) / N\<close> to every other page; when \<open>links\<close> is empty it gives \<open>1 / N\<close> to
  every page of the corpus.
\<close>

theorem transition_model_values:
  assumes "distinct (dict_keys corpus)" and "map_of corpus page = Some links"
    and "0 < d" and "d < 1"
  shows "transition_model corpus page d =
    Inr (map (\<lambda>k. (k,
        if links = {||} then 1 / real (length (dict_keys corpus))
        else if k |\<in>| links
          then d / real (fcard links) + (1 - d) / real (length (dict_keys corpus))
          else (1 - d) / real (length (dict_keys corpus))))
      (dict_keys corpus))"
  using assms(1,2) by (rule transition_model_eq)

theorem transition_model_values_witness:
  "transition_model [(''A'', {|''B'', ''C''|}), (''B'', {||}), (''C'', {|''A''|})] ''A'' (1 / 2)
     = Inr [(''A'', 1 / 6), (''B'', 5 / 12), (''C'', 5 / 12)]
   \<and> transition_model [(''A'', {|''B'', ''C''|}), (''B'', {||}), (''C'', {|''A''|})] ''B'' (1 / 2)
     = Inr [(''A'', 1 / 3), (''B'', 1 / 3), (''C'', 1 / 3)]"
  using transition_model_values [of "[(''A'', {|''B'', ''C''|}), (''B'', {||}), (''C'', {|''A''|})]"
      "''A''" "{|''B'', ''C''|}" "1 / 2"]
    transition_model_values [of "[(''A'', {|''B'', ''C''|}), (''B'', {||}), (''C'', {|''A''|})]"
      "''B''" "{||}" "1 / 2"]
  by (simp add: fcard_finsert_if fcard_fempty)

text \<open>
  Claim C9. For a page of a corpus of \<open>N\<close> pages and a damping factor \<open>d\<close> in \<open>(0, 1)\<close>,
  the transition model returns a value for every page of the corpus, and every value is
  at least \<open>(1 - d) / N\<close>, which is positive: every page can be drawn in one step.
\<close>

theorem transition_model_positive:
  assumes "distinct (dict_keys corpus)" and "map_of corpus page = Some links"
    and "0 < d" and "d < 1"
  shows "\<exists>prob. transition_model corpus page d = Inr prob
    \<and> dict_keys prob = dict_keys corpus
    \<and> 0 < (1 - d) / real (length (dict_keys corpus))
    \<and> (\<forall>v \<in> set (dict_values prob). (1 - d) / real (length (dict_keys corpus)) \<le> v \<and> 0 < v)"
proof -
  let ?N = "real (length (dict_keys corpus))"
  have "corpus \<noteq> []" using assms(2) by auto
  then have n: "0 < ?N" by (simp add: dict_keys_def)
  have sp: "0 < (1 - d) / ?N" using n assms(4) by simp
  have eq: "(1 - d) / ?N \<le> 1 / ?N" using n assms(3) by (simp add: divide_le_cancel)
  have dp: "0 \<le> d / real (fcard links)" using assms(3) by simp
  show ?thesis
    unfolding transition_model_eq [OF assms(1,2), of d]
    using sp eq dp by (auto simp: dict_keys_def dict_values_def comp_def)
qed

theorem transition_model_positive_witness:
  "\<exists>prob. transition_model [(''A'', {|''B''|}), (''B'', {||})] ''A'' (1 / 2) = Inr prob
    \<and> dict_keys prob = [''A'', ''B'']
    \<and> list_all (\<lambda>v. 1 / 4 \<le> v \<and> 0 < v) (dict_values prob)"
  using transition_model_positive [of "[(''A'', {|''B''|}), (''B'', {||})]" "''A''" "{|''B''|}" "1 / 2"]
  by (simp add: list_all_iff)

section \<open>One sweep of the iterative solver\<close>

lemma getitem_present:
  "k \<in> set (dict_keys m) \<Longrightarrow> getitem m k = Inr (rank_of m k)"
  by (auto simp: getitem_def rank_of_def dict_keys_def map_of_eq_None_iff split: option.splits)

lemma getitem_entry:
  "distinct (dict_keys m) \<Longrightarrow> (k, v) \<in> set m \<Longrightarrow> getitem m k = Inr v"
  by (simp add: getitem_def dict_keys_def)

lemma dict_keys_setitem:
  "k \<in> set (dict_keys m) \<Longrightarrow> dict_keys (setitem m k v) = dict_keys m"
  by (induction m) (auto simp: setitem_def)

lemma rank_of_setitem:
  "rank_of (setitem m k v) q = (if q = k then v else rank_of m q)"
  by (simp add: rank_of_def setitem_def update_conv')

lemma link_sum_fold:
  assumes "distinct (dict_keys corpus)" and "set (dict_keys corpus) \<subseteq> set (dict_keys pd)"
    and "set cs \<subseteq> set corpus"
  shows "foldE (\<lambda>link sum.
        bindE (getitem corpus link) (\<lambda>outs.
        if page |\<in>| outs then
          bindE (getitem pd link) (\<lambda>r.
          bindE (truediv r (real (fcard outs))) (\<lambda>q.
          Inr (sum + q)))
        else Inr sum))
      (dict_keys cs) s
    = Inr (s + sum_list (map (\<lambda>(q, outs). rank_of pd q / real (fcard outs))
                     (filter (\<lambda>(q, outs). page |\<in>| outs) cs)))"
  using assms(3)
proof (induction cs arbitrary: s)
  case Nil
  then show ?case by simp
next
  case (Cons c cs)
  obtain q outs where c: "c = (q, outs)" by (cases c)
  have mem: "(q, outs) \<in> set corpus" using Cons.prems c by simp
  have g1: "getitem corpus q = Inr outs" using assms(1) mem by (rule getitem_entry)
  have "q \<in> set (dict_keys corpus)" using mem by (force simp: dict_keys_def)
  then have g2: "getitem pd q = Inr (rank_of pd q)" using assms(2) getitem_present by fastforce
  have rest: "set cs \<subseteq> set corpus" using Cons.prems by simp
  show ?case
  proof (cases "page |\<in>| outs")
    case True
    then have "outs \<noteq> {||}" by auto
    then have "real (fcard outs) \<noteq> 0" by (simp add: fcard_0_eq)
    then show ?thesis using True c g1 g2 Cons.IH [OF rest]
      by (simp add: truediv_def add.assoc)
  next
    case False
    then show ?thesis using c g1 Cons.IH [OF rest] by simp
  qed
qed

lemma link_sum_eq:
  assumes "distinct (dict_keys corpus)" and "set (dict_keys corpus) \<subseteq> set (dict_keys pd)"
  shows "link_sum corpus pd page
    = Inr (sum_list (map (\<lambda>(q, outs). rank_of pd q / real (fcard outs))
                     (filter (\<lambda>(q, outs). page |\<in>| outs) corpus)))"
  unfolding link_sum_def using link_sum_fold [OF assms, of corpus page 0] by simp

lemma update_page_eq:
  assumes "distinct (dict_keys corpus)" and "set (dict_keys corpus) \<subseteq> set (dict_keys pd)"
    and "page \<in> set (dict_keys corpus)"
  shows "update_page corpus d page (c, pd)
    = Inr (if \<bar>rank_recurrence corpus d pd page - rank_of pd page\<bar> < 1 / 1000 then c + 1 else c,
           setitem pd page (rank_recurrence corpus d pd page))"
proof -
  have "corpus \<noteq> []" using assms(3) by auto
  then have n: "real (length corpus) \<noteq> 0" by simp
  have g: "getitem pd page = Inr (rank_of pd page)"
    using assms(2,3) getitem_present by fastforce
  show ?thesis
    using n g by (simp add: update_page_def truediv_def link_sum_eq [OF assms(1,2)]
        rank_recurrence_def Let_def mult.commute)
qed

lemma sweep_fold:
  assumes "distinct (dict_keys corpus)"
  shows "set (dict_keys corpus) \<subseteq> set (dict_keys pd) \<Longrightarrow> set ks \<subseteq> set (dict_keys corpus) \<Longrightarrow>
    foldE (update_page corpus d) ks (c, pd)
    = Inr (c + tolerance_count corpus d ks pd, in_place_sweep corpus d ks pd)"
proof (induction ks arbitrary: c pd)
  case Nil
  then show ?case by simp
next
  case (Cons p ps)
  let ?pd' = "setitem pd p (rank_recurrence corpus d pd p)"
  have p: "p \<in> set (dict_keys corpus)" using Cons.prems by simp
  then have "p \<in> set (dict_keys pd)" using Cons.prems by auto
  then have keys: "dict_keys ?pd' = dict_keys pd" by (rule dict_keys_setitem)
  have sub: "set (dict_keys corpus) \<subseteq> set (dict_keys ?pd')" using keys Cons.prems by simp
  have rest: "set ps \<subseteq> set (dict_keys corpus)" using Cons.prems by simp
  show ?case
    using update_page_eq [OF assms Cons.prems(1) p, of d c] Cons.IH [OF sub rest]
    by simp
qed

lemma sweep_eq:
  assumes "distinct (dict_keys corpus)" and "set (dict_keys corpus) \<subseteq> set (dict_keys pd)"
  shows "sweep corpus d pd
    = Inr (tolerance_count corpus d (dict_keys corpus) pd,
           in_place_sweep corpus d (dict_keys corpus) pd)"
  unfolding sweep_def using sweep_fold [OF assms, of "dict_keys corpus" d 0] by simp

lemma dict_keys_in_place_sweep:
  "set ks \<subseteq> set (dict_keys pd) \<Longrightarrow> dict_keys (in_place_sweep corpus d ks pd) = dict_keys pd"
proof (induction ks arbitrary: pd)
  case Nil
  then show ?case by simp
next
  case (Cons p ps)
  then show ?case by (simp add: dict_keys_setitem)
qed

lemma rank_of_in_place_sweep_other:
  "q \<notin> set ks \<Longrightarrow> rank_of (in_place_sweep corpus d ks pd) q = rank_of pd q"
  by (induction ks arbitrary: pd) (auto simp: rank_of_setitem)

lemma tolerance_count_le: "tolerance_count corpus d ks pd \<le> length ks"
proof (induction ks arbitrary: pd)
  case Nil
  then show ?case by simp
next
  case (Cons p ps)
  have "tolerance_count corpus d ps (setitem pd p (rank_recurrence corpus d pd p)) \<le> length ps"
    by (rule Cons.IH)
  then show ?case by simp
qed

lemma tolerance_count_full:
  "distinct ks \<Longrightarrow> tolerance_count corpus d ks pd = length ks \<Longrightarrow> p \<in> set ks \<Longrightarrow>
   \<bar>rank_of (in_place_sweep corpus d ks pd) p - rank_of pd p\<bar> < 1 / 1000"
proof (induction ks arbitrary: pd)
  case Nil
  then show ?case by simp
next
  case (Cons k ks)
  let ?new = "rank_recurrence corpus d pd k"
  let ?pd' = "setitem pd k ?new"
  have le: "tolerance_count corpus d ks ?pd' \<le> length ks" by (rule tolerance_count_le)
  have hd: "\<bar>?new - rank_of pd k\<bar> < 1 / 1000"
    using Cons.prems(2) le by (auto split: if_splits)
  have tl: "tolerance_count corpus d ks ?pd' = length ks"
    using Cons.prems(2) le by (auto split: if_splits)
  show ?case
  proof (cases "p = k")
    case True
    have "k \<notin> set ks" using Cons.prems(1) by simp
    then have "rank_of (in_place_sweep corpus d ks ?pd') k = ?new"
      by (simp add: rank_of_in_place_sweep_other rank_of_setitem)
    then show ?thesis using True hd by simp
  next
    case False
    then have "p \<in> set ks" using Cons.prems(3) by simp
    moreover have "distinct ks" using Cons.prems(1) by simp
    ultimately have "\<bar>rank_of (in_place_sweep corpus d ks ?pd') p - rank_of ?pd' p\<bar> < 1 / 1000"
      using tl Cons.IH by blast
    then show ?thesis using False by (simp add: rank_of_setitem)
  qed
qed

lemma iterate_loop_invariant_aux:
  assumes "iterate_loop corpus d pd = Some y"
  shows "(I corpus d pd \<and>
      (\<forall>pd k pd'. I corpus d pd \<longrightarrow> sweep corpus d pd = Inr (k, pd') \<longrightarrow> I corpus d pd')) \<longrightarrow>
    (\<forall>result. y = Inr result \<longrightarrow>
      (\<exists>previous. I corpus d previous \<and> sweep corpus d previous = Inr (length corpus, result)))"
    (is "?P corpus d pd y")
proof (rule iterate_loop.raw_induct [of ?P, OF _ assms])
  fix loop :: "'a corpus \<Rightarrow> real \<Rightarrow> 'a dist \<Rightarrow> (error + 'a dist) option"
  fix corpus d pd y
  assume IH: "\<And>d pd b y. loop d pd b = Some y \<Longrightarrow> ?P d pd b y"
  assume eq: "(case sweep corpus d pd of
      Inl e \<Rightarrow> Some (Inl e)
      | Inr (convergence_count, page_distribution') \<Rightarrow>
          if convergence_count = length corpus
          then Some (Inr page_distribution')
          else loop corpus d page_distribution') = Some y"
  show "?P corpus d pd y"
  proof (intro impI allI, elim conjE)
    fix result
    assume inv: "I corpus d pd"
      and step: "\<forall>pd k pd'. I corpus d pd \<longrightarrow> sweep corpus d pd = Inr (k, pd') \<longrightarrow> I corpus d pd'"
      and y: "y = Inr result"
    show "\<exists>previous. I corpus d previous \<and> sweep corpus d previous = Inr (length corpus, result)"
    proof (cases "sweep corpus d pd")
      case (Inl e)
      then show ?thesis using eq y by simp
    next
      case (Inr r)
      obtain k pd' where r: "r = (k, pd')" by (cases r)
      have inv': "I corpus d pd'" using step inv Inr r by blast
      show ?thesis
      proof (cases "k = length corpus")
        case True
        then have "pd' = result" using Inr r eq y by simp
        then show ?thesis using True Inr r inv by auto
      next
        case False
        then have "loop corpus d pd' = Some y" using Inr r eq by simp
        then have "?P corpus d pd' y" by (rule IH)
        then show ?thesis using inv' step y by blast
      qed
    qed
  qed
qed

lemma iterate_loop_invariant:
  assumes "iterate_loop corpus d pd = Some (Inr result)" and "I corpus d pd"
    and "\<And>pd k pd'. I corpus d pd \<Longrightarrow> sweep corpus d pd = Inr (k, pd') \<Longrightarrow> I corpus d pd'"
  shows "\<exists>previous. I corpus d previous \<and> sweep corpus d previous = Inr (length corpus, result)"
  using iterate_loop_invariant_aux [OF assms(1), of I] assms(2,3) by blast

section \<open>The result of the iterative solver\<close>

lemma initial_ranks_eq:
  assumes "distinct (dict_keys corpus)"
  shows "initial_ranks corpus = Inr (map (\<lambda>k. (k, 1 / real (length corpus))) (dict_keys corpus))"
proof (cases "corpus = []")
  case True
  then show ?thesis by (simp add: initial_ranks_def)
next
  case False
  then have "real (length corpus) \<noteq> 0" by simp
  then have body: "(\<lambda>page pd. bindE (truediv 1 (real (length corpus))) (\<lambda>v. Inr (setitem pd page v)))
      = (\<lambda>k m. Inr (setitem m k (1 / real (length corpus))) :: error + 'a dist)"
    by (intro ext) (simp add: truediv_def)
  show ?thesis using assms by (simp add: initial_ranks_def body foldE_build)
qed

lemma dict_keys_map_pair [simp]: "dict_keys (map (\<lambda>k. (k, f k)) ks) = ks"
  by (simp add: dict_keys_def comp_def)

lemma nth_notin_take:
  "distinct xs \<Longrightarrow> i < length xs \<Longrightarrow> xs ! i \<notin> set (take i xs)"
  by (auto simp: in_set_conv_nth nth_eq_iff_index_eq)

lemma iterate_loop_run_aux:
  assumes "iterate_loop corpus d pd = Some y"
  shows "\<forall>result. y = Inr result \<longrightarrow>
      (\<exists>k previous. unconverged_sweeps corpus d k pd = Some previous
         \<and> sweep corpus d previous = Inr (length corpus, result))"
    (is "?P corpus d pd y")
proof (rule iterate_loop.raw_induct [of ?P, OF _ assms])
  fix loop :: "'a corpus \<Rightarrow> real \<Rightarrow> 'a dist \<Rightarrow> (error + 'a dist) option"
  fix corpus d pd y
  assume IH: "\<And>d pd b y. loop d pd b = Some y \<Longrightarrow> ?P d pd b y"
  assume eq: "(case sweep corpus d pd of
      Inl e \<Rightarrow> Some (Inl e)
      | Inr (convergence_count, page_distribution') \<Rightarrow>
          if convergence_count = length corpus
          then Some (Inr page_distribution')
          else loop corpus d page_distribution') = Some y"
  show "?P corpus d pd y"
  proof (intro allI impI)
    fix result
    assume y: "y = Inr result"
    show "\<exists>k previous. unconverged_sweeps corpus d k pd = Some previous
         \<and> sweep corpus d previous = Inr (length corpus, result)"
    proof (cases "sweep corpus d pd")
      case (Inl e)
      then show ?thesis using eq y by simp
    next
      case (Inr r)
      obtain c pd' where r: "r = (c, pd')" by (cases r)
      show ?thesis
      proof (cases "c = length corpus")
        case True
        then have "pd' = result" using Inr r eq y by simp
        then have "unconverged_sweeps corpus d 0 pd = Some pd
            \<and> sweep corpus d pd = Inr (length corpus, result)"
          using True Inr r by simp
        then show ?thesis by blast
      next
        case False
        then have "loop corpus d pd' = Some y" using Inr r eq by simp
        then have "?P corpus d pd' y" by (rule IH)
        then obtain k previous where
          k: "unconverged_sweeps corpus d k pd' = Some previous"
          and last: "sweep corpus d previous = Inr (length corpus, result)"
          using y by blast
        have "unconverged_sweeps corpus d (Suc k) pd = Some previous"
          using k False Inr r by simp
        then show ?thesis using last by blast
      qed
    qed
  qed
qed

lemma iterate_loop_run:
  assumes "iterate_loop corpus d pd = Some (Inr result)"
  shows "\<exists>k previous. unconverged_sweeps corpus d k pd = Some previous
         \<and> sweep corpus d previous = Inr (length corpus, result)"
  using iterate_loop_run_aux [OF assms] by blast

lemma unconverged_sweeps_keys:
  assumes "distinct (dict_keys corpus)"
  shows "dict_keys pd = dict_keys corpus \<Longrightarrow> unconverged_sweeps corpus d k pd = Some previous \<Longrightarrow>
    dict_keys previous = dict_keys corpus"
proof (induction k arbitrary: pd)
  case 0
  then show ?case by simp
next
  case (Suc k)
  have sw: "sweep corpus d pd = Inr (tolerance_count corpus d (dict_keys corpus) pd,
      in_place_sweep corpus d (dict_keys corpus) pd)"
    using assms Suc.prems(1) by (simp add: sweep_eq)
  let ?pd' = "in_place_sweep corpus d (dict_keys corpus) pd"
  have keys': "dict_keys ?pd' = dict_keys corpus"
    using Suc.prems(1) by (simp add: dict_keys_in_place_sweep)
  have "unconverged_sweeps corpus d k ?pd' = Some previous"
    using Suc.prems(2) sw by (simp split: if_splits)
  with keys' show ?case by (rule Suc.IH)
qed

text \<open>
  Claim C7. When the iterative solver returns, the run made some number \<open>k\<close> of sweeps
  that did not end the loop, starting from the initial ranks, and reached a mapping
  \<open>previous\<close>; the next sweep, from \<open>previous\<close>, counted every page as converged and its
  outcome is the result. In that sweep, for every page, the rank written differs by less than
  0.001 from the rank the page held when the sweep began; and for the \<open>i\<close>-th page, from the
  rank it held in the mapping the loop had reached just before its update (a sweep writes
  each page once, so the rank written is the rank in the result).
\<close>

theorem iterate_pagerank_within_tolerance:
  assumes "distinct (dict_keys corpus)" and "iterate_pagerank corpus d = Some (Inr result)"
  shows "\<exists>initial k previous.
      initial_ranks corpus = Inr initial
      \<and> unconverged_sweeps corpus d k initial = Some previous
      \<and> sweep corpus d previous = Inr (length corpus, result)
      \<and> (\<forall>p \<in> set (dict_keys corpus). \<bar>rank_of result p - rank_of previous p\<bar> < 1 / 1000)
      \<and> (\<forall>i < length corpus. \<exists>count before.
            foldE (update_page corpus d) (take i (dict_keys corpus)) (0, previous)
              = Inr (count, before)
            \<and> \<bar>rank_of result (dict_keys corpus ! i) - rank_of before (dict_keys corpus ! i)\<bar>
                < 1 / 1000)"
proof -
  let ?keys = "dict_keys corpus"
  let ?init = "map (\<lambda>k. (k, 1 / real (length corpus))) ?keys"
  have init: "initial_ranks corpus = Inr ?init" using assms(1) by (rule initial_ranks_eq)
  have loop: "iterate_loop corpus d ?init = Some (Inr result)"
    using assms(2) by (simp add: iterate_pagerank_def init)
  obtain k previous where run: "unconverged_sweeps corpus d k ?init = Some previous"
    and sw: "sweep corpus d previous = Inr (length corpus, result)"
    using iterate_loop_run [OF loop] by blast
  have keys: "dict_keys previous = ?keys"
    using unconverged_sweeps_keys [OF assms(1) _ run] by simp
  have eq: "sweep corpus d previous
      = Inr (tolerance_count corpus d ?keys previous, in_place_sweep corpus d ?keys previous)"
    using assms(1) keys by (simp add: sweep_eq)
  have cnt: "tolerance_count corpus d ?keys previous = length ?keys"
    using sw eq by (simp add: dict_keys_def)
  have res: "result = in_place_sweep corpus d ?keys previous"
    using sw eq by simp
  have all: "\<forall>p \<in> set ?keys. \<bar>rank_of result p - rank_of previous p\<bar> < 1 / 1000"
    unfolding res using tolerance_count_full [OF assms(1) cnt] by blast
  have steps: "\<exists>count before.
            foldE (update_page corpus d) (take i ?keys) (0, previous) = Inr (count, before)
            \<and> \<bar>rank_of result (?keys ! i) - rank_of before (?keys ! i)\<bar> < 1 / 1000"
    if i: "i < length corpus" for i
  proof -
    let ?before = "in_place_sweep corpus d (take i ?keys) previous"
    have len: "i < length ?keys" using i by (simp add: dict_keys_def)
    have sub1: "set ?keys \<subseteq> set (dict_keys previous)" using keys by simp
    have sub2: "set (take i ?keys) \<subseteq> set ?keys" by (rule set_take_subset)
    have run_i: "foldE (update_page corpus d) (take i ?keys) (0, previous)
        = Inr (0 + tolerance_count corpus d (take i ?keys) previous, ?before)"
      using assms(1) sub1 sub2 by (rule sweep_fold)
    have "?keys ! i \<notin> set (take i ?keys)"
      using assms(1) len by (rule nth_notin_take)
    then have "rank_of ?before (?keys ! i) = rank_of previous (?keys ! i)"
      by (rule rank_of_in_place_sweep_other)
    moreover have "\<bar>rank_of result (?keys ! i) - rank_of previous (?keys ! i)\<bar> < 1 / 1000"
      using all len by simp
    ultimately show ?thesis using run_i by simp
  qed
  show ?thesis using init run sw all steps by blast
qed

theorem iterate_pagerank_within_tolerance_witness:
  "\<exists>initial k previous.
      initial_ranks [(''A'', {|''B''|}), (''B'', {|''A''|}), (''C'', {||})] = Inr initial
      \<and> unconverged_sweeps [(''A'', {|''B''|}), (''B'', {|''A''|}), (''C'', {||})] (1 / 2) k initial
          = Some previous
      \<and> sweep [(''A'', {|''B''|}), (''B'', {|''A''|}), (''C'', {||})] (1 / 2) previous
          = Inr (3, [(''A'', 1 / 3), (''B'', 1 / 3), (''C'', 1 / 6)])
      \<and> \<bar>1 / 3 - rank_of previous ''A''\<bar> < 1 / 1000
      \<and> \<bar>1 / 3 - rank_of previous ''B''\<bar> < 1 / 1000
      \<and> \<bar>1 / 6 - rank_of previous ''C''\<bar> < 1 / 1000"
proof -
  let ?corpus = "[(''A'', {|''B''|}), (''B'', {|''A''|}), (''C'', {||})]"
  have keys: "distinct (dict_keys ?corpus)" by simp
  have run: "iterate_pagerank ?corpus (1 / 2)
      = Some (Inr [(''A'', 1 / 3), (''B'', 1 / 3), (''C'', 1 / 6)])"
    by (simp add: iterate_pagerank_def initial_ranks_def iterate_loop.simps sweep_def
        update_page_def link_sum_def truediv_def getitem_def setitem_def fcard_finsert_if
        fcard_fempty)
  have ranks: "rank_of [(''A'', 1 / 3), (''B'', 1 / 3), (''C'', 1 / 6)] ''A'' = 1 / 3"
    "rank_of [(''A'', 1 / 3), (''B'', 1 / 3), (''C'', 1 / 6)] ''B'' = 1 / 3"
    "rank_of [(''A'', 1 / 3), (''B'', 1 / 3), (''C'', 1 / 6)] ''C'' = 1 / 6"
    by (simp_all add: rank_of_def)
  obtain initial k previous where
    1: "initial_ranks ?corpus = Inr initial"
    and 2: "unconverged_sweeps ?corpus (1 / 2) k initial = Some previous"
    and 3: "sweep ?corpus (1 / 2) previous
        = Inr (length ?corpus, [(''A'', 1 / 3), (''B'', 1 / 3), (''C'', 1 / 6)])"
    and 4: "\<forall>p \<in> set (dict_keys ?corpus).
        \<bar>rank_of [(''A'', 1 / 3), (''B'', 1 / 3), (''C'', 1 / 6)] p - rank_of previous p\<bar> < 1 / 1000"
    using iterate_pagerank_within_tolerance [OF keys run] by blast
  have "sweep ?corpus (1 / 2) previous = Inr (3, [(''A'', 1 / 3), (''B'', 1 / 3), (''C'', 1 / 6)])"
    using 3 by simp
  moreover have "\<bar>1 / 3 - rank_of previous ''A''\<bar> < 1 / 1000"
    "\<bar>1 / 3 - rank_of previous ''B''\<bar> < 1 / 1000" "\<bar>1 / 6 - rank_of previous ''C''\<bar> < 1 / 1000"
    using 4 by (simp_all add: ranks)
  ultimately show ?thesis using 1 2 by blast
qed

lemma rank_recurrence_lower:
  assumes "0 \<le> d" and "\<forall>q. 0 \<le> rank_of pd q"
  shows "(1 - d) / real (length corpus) \<le> rank_recurrence corpus d pd p"
proof -
  have "0 \<le> sum_list (map (\<lambda>(q, outs). rank_of pd q / real (fcard outs))
                     (filter (\<lambda>(q, outs). p |\<in>| outs) corpus))"
    using assms(2) by (intro sum_list_nonneg) auto
  then show ?thesis using assms(1) by (simp add: rank_recurrence_def)
qed

lemma in_place_sweep_lower:
  assumes "0 \<le> d" and "d \<le> 1"
  shows "\<forall>q. 0 \<le> rank_of pd q \<Longrightarrow>
    (\<forall>q. 0 \<le> rank_of (in_place_sweep corpus d ks pd) q)
    \<and> (\<forall>p \<in> set ks. (1 - d) / real (length corpus) \<le> rank_of (in_place_sweep corpus d ks pd) p)"
proof (induction ks arbitrary: pd)
  case Nil
  then show ?case by simp
next
  case (Cons k ks)
  let ?new = "rank_recurrence corpus d pd k"
  let ?pd' = "setitem pd k ?new"
  have low: "(1 - d) / real (length corpus) \<le> ?new"
    using assms(1) Cons.prems by (rule rank_recurrence_lower)
  have "0 \<le> (1 - d) / real (length corpus)" using assms(2) by simp
  then have "0 \<le> ?new" using low by linarith
  then have nonneg: "\<forall>q. 0 \<le> rank_of ?pd' q" using Cons.prems by (simp add: rank_of_setitem)
  note IH = Cons.IH [OF nonneg]
  have "(1 - d) / real (length corpus) \<le> rank_of (in_place_sweep corpus d ks ?pd') k"
  proof (cases "k \<in> set ks")
    case True
    then show ?thesis using IH by blast
  next
    case False
    then show ?thesis using low by (simp add: rank_of_in_place_sweep_other rank_of_setitem)
  qed
  then show ?case using IH by simp
qed

lemma rank_of_entry:
  "distinct (dict_keys m) \<Longrightarrow> (k, v) \<in> set m \<Longrightarrow> rank_of m k = v"
  by (simp add: rank_of_def dict_keys_def)

lemma rank_of_nonneg:
  assumes "\<forall>v \<in> set (dict_values m). 0 \<le> v"
  shows "0 \<le> rank_of m q"
proof (cases "map_of m q")
  case None
  then show ?thesis by (simp add: rank_of_def)
next
  case (Some v)
  then have "(q, v) \<in> set m" by (rule map_of_SomeD)
  then have "v \<in> set (dict_values m)" by (force simp: dict_values_def)
  then show ?thesis using assms Some by (simp add: rank_of_def)
qed

text \<open>
  Claim C10. For a non-empty corpus of \<open>N\<close> pages and a damping factor \<open>d\<close> in \<open>(0, 1)\<close>,
  the mapping the iterative solver returns is the outcome of a full sweep, holds the pages
  of the corpus, and every value in it is at least \<open>(1 - d) / N\<close>.
\<close>

theorem iterate_pagerank_lower_bound:
  assumes "distinct (dict_keys corpus)" and "corpus \<noteq> []" and "0 < d" and "d < 1"
    and "iterate_pagerank corpus d = Some (Inr result)"
  shows "(\<exists>previous. sweep corpus d previous = Inr (length corpus, result))
    \<and> dict_keys result = dict_keys corpus
    \<and> (\<forall>v \<in> set (dict_values result). (1 - d) / real (length corpus) \<le> v)"
proof -
  let ?init = "map (\<lambda>k. (k, 1 / real (length corpus))) (dict_keys corpus)"
  let ?I = "\<lambda>c (d::real) pd. distinct (dict_keys c) \<and> 0 \<le> d \<and> d \<le> 1
      \<and> dict_keys pd = dict_keys c \<and> (\<forall>q. 0 \<le> rank_of pd q)"
  have loop: "iterate_loop corpus d ?init = Some (Inr result)"
    using assms(5) by (simp add: iterate_pagerank_def initial_ranks_eq [OF assms(1)])
  have "\<exists>previous. ?I corpus d previous \<and> sweep corpus d previous = Inr (length corpus, result)"
  proof (rule iterate_loop_invariant [OF loop, of ?I])
    have "\<forall>q. 0 \<le> rank_of ?init q"
      by (intro allI rank_of_nonneg) (auto simp: dict_values_def)
    then show "?I corpus d ?init" using assms(1,3,4) by simp
  next
    fix pd k pd'
    assume inv: "?I corpus d pd" and sw: "sweep corpus d pd = Inr (k, pd')"
    have pd': "pd' = in_place_sweep corpus d (dict_keys corpus) pd"
      using sw inv by (simp add: sweep_eq)
    have "\<forall>q. 0 \<le> rank_of pd' q"
      unfolding pd' using in_place_sweep_lower [of d pd corpus "dict_keys corpus"] inv by blast
    then show "?I corpus d pd'" using inv pd' by (simp add: dict_keys_in_place_sweep)
  qed
  then obtain previous where inv: "?I corpus d previous"
    and sw: "sweep corpus d previous = Inr (length corpus, result)" by blast
  have res: "result = in_place_sweep corpus d (dict_keys corpus) previous"
    using sw inv by (simp add: sweep_eq)
  have keys: "dict_keys result = dict_keys corpus"
    using inv res by (simp add: dict_keys_in_place_sweep)
  have low: "\<forall>p \<in> set (dict_keys corpus). (1 - d) / real (length corpus) \<le> rank_of result p"
    unfolding res using in_place_sweep_lower [of d previous corpus "dict_keys corpus"] inv by blast
  have "(1 - d) / real (length corpus) \<le> v" if v: "v \<in> set (dict_values result)" for v
  proof -
    obtain p where e: "(p, v) \<in> set result" using v by (auto simp: dict_values_def)
    then have "p \<in> set (dict_keys result)" by (force simp: dict_keys_def)
    then have p: "p \<in> set (dict_keys corpus)" using keys by simp
    have "rank_of result p = v" using e keys assms(1) by (simp add: rank_of_entry)
    then show ?thesis using low p by auto
  qed
  then show ?thesis using sw keys by blast
qed

theorem iterate_pagerank_lower_bound_witness:
  "(\<exists>previous. sweep [(''A'', {|''B''|}), (''B'', {||})] (1 / 2) previous
       = Inr (2, [(''A'', 1 / 4), (''B'', 3 / 8)]))
    \<and> dict_keys [(''A'', 1 / 4 :: real), (''B'', 3 / 8)] = [''A'', ''B'']
    \<and> list_all (\<lambda>v. (1 - 1 / 2) / 2 \<le> v) (dict_values [(''A'', 1 / 4 :: real), (''B'', 3 / 8)])"
proof -
  let ?corpus = "[(''A'', {|''B''|}), (''B'', {||})]"
  have keys: "distinct (dict_keys ?corpus)" by simp
  have run: "iterate_pagerank ?corpus (1 / 2) = Some (Inr [(''A'', 1 / 4), (''B'', 3 / 8)])"
    by (simp add: iterate_pagerank_def initial_ranks_def iterate_loop.simps sweep_def
        update_page_def link_sum_def truediv_def getitem_def setitem_def fcard_finsert_if
        fcard_fempty)
  show ?thesis using iterate_pagerank_lower_bound [OF keys _ _ _ run]
    by (simp add: numeral_2_eq_2)
qed

lemma incoming_sum_as_set:
  assumes "distinct (dict_keys corpus)"
  shows "sum_list (map f (filter P corpus)) = (\<Sum>e \<in> {e \<in> set corpus. P e}. f e)"
proof -
  have "distinct corpus" using assms by (simp add: dict_keys_def distinct_map)
  then have "distinct (filter P corpus)" by simp
  then have "sum_list (map f (filter P corpus)) = sum f (set (filter P corpus))"
    by (rule sum_list_distinct_conv_sum_set)
  then show ?thesis by simp
qed

text \<open>
  Claim C2. An update of the iterative solver writes, for its page \<open>p\<close>, the rank
  \<open>(1 - d) / N + d * (\<Sum> rank q / |out q|)\<close>, the sum ranging over the pages \<open>q\<close> of the
  corpus whose out-set holds \<open>p\<close>; a page with an empty out-set is never among them.
\<close>

theorem update_page_recurrence:
  assumes "distinct (dict_keys corpus)" and "dict_keys page_distribution = dict_keys corpus"
    and "page \<in> set (dict_keys corpus)"
  shows "\<exists>count'. update_page corpus d page (count, page_distribution)
      = Inr (count', setitem page_distribution page
          ((1 - d) / real (length corpus)
           + d * (\<Sum>(q, outs) \<in> {(q, outs). (q, outs) \<in> set corpus \<and> page |\<in>| outs}.
                    rank_of page_distribution q / real (fcard outs))))
    \<and> (\<forall>(q, outs) \<in> set corpus.
          outs = {||} \<longrightarrow> (q, outs) \<notin> {(q, outs). (q, outs) \<in> set corpus \<and> page |\<in>| outs})"
proof -
  have sub: "set (dict_keys corpus) \<subseteq> set (dict_keys page_distribution)"
    using assms(2) by simp
  have set_eq: "{(q, outs). (q, outs) \<in> set corpus \<and> page |\<in>| outs}
      = {e \<in> set corpus. (\<lambda>(q, outs). page |\<in>| outs) e}" by auto
  have "rank_recurrence corpus d page_distribution page
      = (1 - d) / real (length corpus)
        + d * (\<Sum>(q, outs) \<in> {(q, outs). (q, outs) \<in> set corpus \<and> page |\<in>| outs}.
                 rank_of page_distribution q / real (fcard outs))"
    unfolding rank_recurrence_def set_eq
    by (simp only: incoming_sum_as_set [OF assms(1)])
  then show ?thesis
    using update_page_eq [OF assms(1) sub assms(3), of d count] by auto
qed

theorem update_page_recurrence_witness:
  "\<exists>count'. update_page [(''A'', {|''C''|}), (''B'', {|''A'', ''C''|}), (''C'', {||})] (1 / 2) ''C''
        (0, [(''A'', 1 / 3), (''B'', 1 / 3), (''C'', 1 / 3)])
      = Inr (count', [(''A'', 1 / 3), (''B'', 1 / 3), (''C'', 5 / 12)])"
proof -
  have s: "{(q, outs). (q, outs) \<in> set [(''A'', {|''C''|}), (''B'', {|''A'', ''C''|}), (''C'', {||})]
        \<and> ''C'' |\<in>| outs} = {(''A'', {|''C''|}), (''B'', {|''A'', ''C''|})}"
    by auto
  show ?thesis
    using update_page_recurrence [of "[(''A'', {|''C''|}), (''B'', {|''A'', ''C''|}), (''C'', {||})]"
      "[(''A'', 1 / 3), (''B'', 1 / 3), (''C'', 1 / 3)]" "''C''" "1 / 2" 0]
    unfolding s
    by (simp add: rank_of_def setitem_def fcard_finsert_if fcard_fempty)
qed

lemma setitem_append_hit:
  "p \<notin> set (dict_keys A) \<Longrightarrow> setitem (A @ (p, v) # B) p w = A @ (p, w) # B"
  by (induction A) (auto simp: setitem_def)

lemma in_place_sweep_split:
  "distinct (dict_keys (A @ B)) \<Longrightarrow>
   \<exists>B'. in_place_sweep corpus d (dict_keys B) (A @ B) = A @ B'
     \<and> dict_keys B' = dict_keys B
     \<and> (\<forall>j < length B. snd (B' ! j)
            = rank_recurrence corpus d (A @ take j B' @ drop j B) (dict_keys B ! j))"
proof (induction B arbitrary: A)
  case Nil
  then show ?case by simp
next
  case (Cons e B)
  obtain p v where e: "e = (p, v)" by (cases e)
  let ?new = "rank_recurrence corpus d (A @ (p, v) # B) p"
  have fresh: "p \<notin> set (dict_keys A)" using Cons.prems e by (auto simp: dict_keys_def)
  have step: "setitem (A @ (p, v) # B) p ?new = (A @ [(p, ?new)]) @ B"
    using fresh by (simp add: setitem_append_hit)
  have "distinct (dict_keys ((A @ [(p, ?new)]) @ B))"
    using Cons.prems e by (auto simp: dict_keys_def)
  from Cons.IH [OF this] obtain B' where
    run: "in_place_sweep corpus d (dict_keys B) ((A @ [(p, ?new)]) @ B) = (A @ [(p, ?new)]) @ B'"
    and keys: "dict_keys B' = dict_keys B"
    and vals: "\<forall>j < length B. snd (B' ! j)
        = rank_recurrence corpus d ((A @ [(p, ?new)]) @ take j B' @ drop j B) (dict_keys B ! j)"
    by blast
  let ?B' = "(p, ?new) # B'"
  have 1: "in_place_sweep corpus d (dict_keys (e # B)) (A @ e # B) = A @ ?B'"
    using run step e by simp
  have 2: "dict_keys ?B' = dict_keys (e # B)" using keys e by simp
  have 3: "snd (?B' ! j) = rank_recurrence corpus d (A @ take j ?B' @ drop j (e # B))
      (dict_keys (e # B) ! j)" if j: "j < length (e # B)" for j
  proof (cases j)
    case 0
    then show ?thesis using e by simp
  next
    case (Suc i)
    then have "i < length B" using j by simp
    then show ?thesis using vals Suc by simp
  qed
  show ?case using 1 2 3 by blast
qed

lemma rank_of_nth:
  assumes "distinct (dict_keys m)" and "i < length m"
  shows "rank_of m (dict_keys m ! i) = snd (m ! i)"
proof -
  have "(fst (m ! i), snd (m ! i)) \<in> set m" using assms(2) by simp
  with assms(1) have "rank_of m (fst (m ! i)) = snd (m ! i)" by (rule rank_of_entry)
  then show ?thesis using assms(2) by (simp add: dict_keys_def)
qed

text \<open>
  Claim C3, as amended. A sweep of the iterative solver rewrites the mapping in place, in
  the order of the corpus: the update of the \<open>i\<close>-th page reads the ranks this sweep has
  already written for the pages before it, and the ranks of the previous sweep for itself
  and the pages after it.
\<close>

theorem sweep_reads_in_place:
  assumes "distinct (dict_keys corpus)" and "dict_keys previous = dict_keys corpus"
  shows "\<exists>count result. sweep corpus d previous = Inr (count, result)
    \<and> dict_keys result = dict_keys corpus
    \<and> (\<forall>i < length corpus. rank_of result (dict_keys corpus ! i)
          = rank_recurrence corpus d (take i result @ drop i previous) (dict_keys corpus ! i))"
proof -
  have d: "distinct (dict_keys ([] @ previous))" using assms by simp
  obtain result where
    run: "in_place_sweep corpus d (dict_keys previous) ([] @ previous) = [] @ result"
    and keys: "dict_keys result = dict_keys previous"
    and vals: "\<forall>j < length previous. snd (result ! j)
        = rank_recurrence corpus d ([] @ take j result @ drop j previous) (dict_keys previous ! j)"
    using in_place_sweep_split [OF d, of corpus d] by blast
  have len: "length previous = length corpus" "length result = length corpus"
    using assms(2) keys by (metis dict_keys_def length_map)+
  have sw: "sweep corpus d previous
      = Inr (tolerance_count corpus d (dict_keys corpus) previous, result)"
    using run assms by (simp add: sweep_eq)
  have "rank_of result (dict_keys corpus ! i)
      = rank_recurrence corpus d (take i result @ drop i previous) (dict_keys corpus ! i)"
    if i: "i < length corpus" for i
  proof -
    have "rank_of result (dict_keys result ! i) = snd (result ! i)"
      using keys assms i len by (intro rank_of_nth) simp_all
    then show ?thesis using vals i len keys assms(2) by simp
  qed
  then show ?thesis using sw keys assms(2) by simp
qed

theorem sweep_reads_in_place_witness:
  "\<exists>count result.
     sweep [(''A'', {|''B''|}), (''B'', {|''C''|}), (''C'', {||})] (1 / 2)
         [(''A'', 1 / 3), (''B'', 1 / 3), (''C'', 1 / 3)] = Inr (count, result)
     \<and> dict_keys result = [''A'', ''B'', ''C'']
     \<and> rank_of result ''B''
         = rank_recurrence [(''A'', {|''B''|}), (''B'', {|''C''|}), (''C'', {||})] (1 / 2)
             (take 1 result @ [(''B'', 1 / 3), (''C'', 1 / 3)]) ''B''"
proof -
  let ?corpus = "[(''A'', {|''B''|}), (''B'', {|''C''|}), (''C'', {||})]"
  let ?previous = "[(''A'', 1 / 3 :: real), (''B'', 1 / 3), (''C'', 1 / 3)]"
  have 1: "distinct (dict_keys ?corpus)" by simp
  have 2: "dict_keys ?previous = dict_keys ?corpus" by simp
  obtain count result where
    sw: "sweep ?corpus (1 / 2) ?previous = Inr (count, result)"
    and keys: "dict_keys result = dict_keys ?corpus"
    and vals: "\<forall>i < length ?corpus. rank_of result (dict_keys ?corpus ! i)
          = rank_recurrence ?corpus (1 / 2) (take i result @ drop i ?previous) (dict_keys ?corpus ! i)"
    using sweep_reads_in_place [OF 1 2, of "1 / 2"] by blast
  have "rank_of result (dict_keys ?corpus ! 1)
      = rank_recurrence ?corpus (1 / 2) (take 1 result @ drop 1 ?previous) (dict_keys ?corpus ! 1)"
    using vals [rule_format, of 1] by simp
  then show ?thesis using sw keys by auto
qed

text \<open>
  Claim C3 as stated fails. On the chain \<open>A \<rightarrow> B \<rightarrow> C\<close> with damping factor 1/2 and all
  ranks 1/3, the update of \<open>B\<close> reads the rank 1/6 just written for \<open>A\<close> and writes 1/4,
  where the synchronous recurrence reads 1/3 and writes 1/3.
\<close>

theorem sweep_not_synchronous:
  "sweep [(''A'', {|''B''|}), (''B'', {|''C''|}), (''C'', {||})] (1 / 2)
      [(''A'', 1 / 3), (''B'', 1 / 3), (''C'', 1 / 3)]
     = Inr (0, [(''A'', 1 / 6), (''B'', 1 / 4), (''C'', 7 / 24)])
   \<and> synchronous_sweep [(''A'', {|''B''|}), (''B'', {|''C''|}), (''C'', {||})] (1 / 2)
      [(''A'', 1 / 3), (''B'', 1 / 3), (''C'', 1 / 3)]
     = [(''A'', 1 / 6), (''B'', 1 / 3), (''C'', 1 / 3)]"
  by (simp add: sweep_def update_page_def link_sum_def truediv_def getitem_def setitem_def
      synchronous_sweep_def rank_recurrence_def rank_of_def fcard_finsert_if fcard_fempty)

section \<open>Small graphs under the iterative solver\<close>

lemma two_cycle_iterate:
  assumes "a \<noteq> b"
  shows "iterate_pagerank [(a, {|b|}), (b, {|a|})] d = Some (Inr [(a, 1 / 2), (b, 1 / 2)])"
proof -
  have half: "(1 - d) / 2 + d / 2 = 1 / 2" "(1 - d) / 2 + 1 / 2 * d = 1 / 2"
    by (simp_all add: field_simps)
  show ?thesis using assms
    by (simp add: iterate_pagerank_def initial_ranks_def iterate_loop.simps sweep_def
        update_page_def link_sum_def truediv_def getitem_def setitem_def fcard_finsert_if
        fcard_fempty half Let_def)
qed

lemma two_cycle_transition:
  assumes "a \<noteq> b"
  shows "transition_model [(a, {|b|}), (b, {|a|})] a d = Inr [(a, (1 - d) / 2), (b, d + (1 - d) / 2)]"
    and "transition_model [(a, {|b|}), (b, {|a|})] b d = Inr [(a, d + (1 - d) / 2), (b, (1 - d) / 2)]"
  using assms
    transition_model_eq [of "[(a, {|b|}), (b, {|a|})]" a "{|b|}" d]
    transition_model_eq [of "[(a, {|b|}), (b, {|a|})]" b "{|a|}" d]
  by (simp_all add: fcard_finsert_if fcard_fempty)

lemma single_dead_end_iterate:
  assumes "1 / 1000 \<le> \<bar>d\<bar>"
  shows "iterate_pagerank [(a, {||})] d = Some (Inr [(a, 1 - d)])"
  using assms
  by (simp add: iterate_pagerank_def initial_ranks_def iterate_loop.simps sweep_def
        update_page_def link_sum_def truediv_def getitem_def setitem_def fcard_fempty Let_def)

lemma empty_iterate: "iterate_pagerank [] d = Some (Inr [])"
  by (simp add: iterate_pagerank_def initial_ranks_def iterate_loop.simps sweep_def)

section \<open>The random walk\<close>

lemma bisect_bounds:
  "lo \<le> hi \<Longrightarrow> lo \<le> bisect a x lo hi \<and> bisect a x lo hi \<le> hi"
proof (induction a x lo hi rule: bisect.induct)
  case (1 a x lo hi)
  show ?case
  proof (cases "lo < hi")
    case False
    then show ?thesis using "1.prems" by (subst (1 2) bisect.simps) simp
  next
    case True
    let ?mid = "(lo + hi) div 2"
    have m: "lo \<le> ?mid" "?mid < hi" using True by auto
    show ?thesis
    proof (cases "x < a ! ?mid")
      case left: True
      have "lo \<le> bisect a x lo ?mid \<and> bisect a x lo ?mid \<le> ?mid"
        using "1.IH"(1) [OF True refl left] m by simp
      then show ?thesis using True left m by (subst (1 2) bisect.simps) (simp add: Let_def)
    next
      case right: False
      have "?mid + 1 \<le> bisect a x (?mid + 1) hi \<and> bisect a x (?mid + 1) hi \<le> hi"
        using "1.IH"(2) [OF True refl right] m by simp
      then show ?thesis using True right m
        by (subst (1 2) bisect.simps) (simp add: Let_def)
    qed
  qed
qed

lemma length_accumulate_from [simp]: "length (accumulate_from t ws) = length ws"
  by (induction ws arbitrary: t) simp_all

lemma last_accumulate_from:
  "ws \<noteq> [] \<Longrightarrow> last (accumulate_from t ws) = t + sum_list ws"
proof (induction ws arbitrary: t)
  case Nil
  then show ?case by simp
next
  case (Cons w ws)
  show ?case
  proof (cases "ws = []")
    case True
    then show ?thesis by simp
  next
    case False
    then have "accumulate_from (t + w) ws \<noteq> []" by (cases ws) simp_all
    then show ?thesis using Cons.IH [OF False, of "t + w"] by (simp add: add.assoc)
  qed
qed

lemma random_choices_member:
  assumes "population \<noteq> []" and "length weights = length population" and "0 < sum_list weights"
  shows "\<exists>s. random_choices population weights g = Inr (s, g\<lparr>pos := Suc (pos g)\<rparr>)
    \<and> s \<in> set population"
proof -
  let ?cum = "accumulate weights"
  have len: "length ?cum = length population" using assms(2) by (simp add: accumulate_def)
  have ne: "?cum \<noteq> []" using len assms(1) by auto
  have "weights \<noteq> []" using assms(1,2) by auto
  then have total: "last ?cum = sum_list weights"
    by (simp add: accumulate_def last_accumulate_from)
  let ?i = "bisect ?cum (source g (pos g) * sum_list weights) 0 (length population - 1)"
  have "?i \<le> length population - 1" using bisect_bounds [of 0 "length population - 1"] by simp
  then have "?i < length population" using assms(1) by (cases population) simp_all
  then have "population ! ?i \<in> set population" by simp
  moreover have "random_choices population weights g
      = Inr (population ! ?i, g\<lparr>pos := Suc (pos g)\<rparr>)"
    using len ne total assms(3) by (simp add: random_choices_def random_random_def Let_def)
  ultimately show ?thesis by blast
qed

lemma sum_list_if_add:
  "sum_list (map (\<lambda>k. if P k then a + s else (s::real)) ks)
    = real (length (filter P ks)) * a + real (length ks) * s"
  by (induction ks) (simp_all add: algebra_simps)

lemma transition_model_total:
  assumes "distinct (dict_keys corpus)" and "links_closed corpus"
    and "map_of corpus page = Some links"
  shows "\<exists>prob. transition_model corpus page d = Inr prob
    \<and> dict_keys prob = dict_keys corpus
    \<and> length (dict_values prob) = length (dict_keys corpus)
    \<and> sum_list (dict_values prob) = 1"
proof -
  let ?N = "real (length (dict_keys corpus))"
  have "corpus \<noteq> []" using assms(3) by auto
  then have n: "?N \<noteq> 0" by (simp add: dict_keys_def)
  have "(page, links) \<in> set corpus" using assms(3) by (rule map_of_SomeD)
  then have closed: "fset links \<subseteq> set (dict_keys corpus)"
    using assms(2) by (auto simp: links_closed_def)
  let ?w = "\<lambda>k. if links = {||} then 1 / ?N
        else if k |\<in>| links then d / real (fcard links) + (1 - d) / ?N else (1 - d) / ?N"
  have "sum_list (map ?w (dict_keys corpus)) = 1"
  proof (cases "links = {||}")
    case True
    then show ?thesis using n by (simp add: sum_list_triv)
  next
    case False
    then have l: "real (fcard links) \<noteq> 0" by (simp add: fcard_0_eq)
    have "length (filter (\<lambda>k. k |\<in>| links) (dict_keys corpus))
        = card ({k. k |\<in>| links} \<inter> set (dict_keys corpus))"
      using assms(1) by (rule distinct_length_filter)
    also have "{k. k |\<in>| links} \<inter> set (dict_keys corpus) = fset links"
      using closed by auto
    finally have cnt: "length (filter (\<lambda>k. k |\<in>| links) (dict_keys corpus)) = fcard links"
      by (simp add: fcard.rep_eq)
    have "sum_list (map ?w (dict_keys corpus))
        = real (fcard links) * (d / real (fcard links)) + ?N * ((1 - d) / ?N)"
      using False by (simp add: sum_list_if_add cnt)
    also have "\<dots> = 1" using l n by simp
    finally show ?thesis .
  qed
  then show ?thesis
    unfolding transition_model_eq [OF assms(1,3), of d]
    by (simp add: dict_values_def comp_def)
qed

lemma draw_member:
  assumes "distinct (dict_keys corpus)" and "links_closed corpus"
    and "sample \<in> set (dict_keys corpus)"
  shows "\<exists>s. draw corpus d sample g = Inr (s, g\<lparr>pos := Suc (pos g)\<rparr>)
    \<and> s \<in> set (dict_keys corpus)"
proof -
  have "map_of corpus sample \<noteq> None"
    using assms(3) by (simp add: map_of_eq_None_iff dict_keys_def)
  then obtain links where links: "map_of corpus sample = Some links" by auto
  obtain prob where tm: "transition_model corpus sample d = Inr prob"
    and keys: "dict_keys prob = dict_keys corpus"
    and len: "length (dict_values prob) = length (dict_keys corpus)"
    and total: "sum_list (dict_values prob) = 1"
    using transition_model_total [OF assms(1,2) links, of d] by auto
  have 1: "dict_keys prob \<noteq> []" using keys assms(3) by auto
  have 2: "length (dict_values prob) = length (dict_keys prob)" using len keys by simp
  have 3: "0 < sum_list (dict_values prob)" using total by simp
  obtain s where "random_choices (dict_keys prob) (dict_values prob) g
      = Inr (s, g\<lparr>pos := Suc (pos g)\<rparr>)" and "s \<in> set (dict_keys prob)"
    using random_choices_member [OF 1 2 3, of g] by auto
  then show ?thesis using tm keys by (simp add: draw_def)
qed

lemma bindE_assoc: "bindE (bindE m f) k = bindE m (\<lambda>x. bindE (f x) k)"
  by (cases m) simp_all

lemma sample_step_draw:
  "sample_step corpus d (pd, sample, g) =
    bindE (getitem pd sample) (\<lambda>c.
    bindE (draw corpus d sample g) (\<lambda>(s', g').
    Inr (setitem pd sample (c + 1), s', g')))"
  by (simp add: sample_step_def draw_def bindE_assoc)

lemma walk_draw:
  "walk corpus d (Suc k) sample g =
    bindE (draw corpus d sample g) (\<lambda>(s', g').
    bindE (walk corpus d k s' g') (\<lambda>ps. Inr (sample # ps)))"
  by (simp add: draw_def bindE_assoc)

lemma sample_loop:
  assumes "distinct (dict_keys corpus)" and "links_closed corpus"
  shows "sample \<in> set (dict_keys corpus) \<Longrightarrow> dict_keys pd = dict_keys corpus \<Longrightarrow>
    \<exists>ps pd' s' g'.
      foldE (\<lambda>i. sample_step corpus d) is (pd, sample, g) = Inr (pd', s', g')
      \<and> walk corpus d (length is) sample g = Inr ps
      \<and> length ps = Suc (length is)
      \<and> set ps \<subseteq> set (dict_keys corpus)
      \<and> dict_keys pd' = dict_keys corpus
      \<and> (\<forall>k. rank_of pd' k = rank_of pd k + real (count_list (butlast ps) k))"
proof (induction "is" arbitrary: pd sample g)
  case Nil
  then show ?case by simp
next
  case (Cons i "is")
  let ?pd1 = "setitem pd sample (rank_of pd sample + 1)"
  let ?g1 = "g\<lparr>pos := Suc (pos g)\<rparr>"
  have present: "sample \<in> set (dict_keys pd)" using Cons.prems by simp
  obtain s1 where dr: "draw corpus d sample g = Inr (s1, ?g1)"
    and s1: "s1 \<in> set (dict_keys corpus)"
    using draw_member [OF assms Cons.prems(1), of d g] by auto
  have step: "sample_step corpus d (pd, sample, g) = Inr (?pd1, s1, ?g1)"
    using dr present by (simp add: sample_step_draw getitem_present)
  have keys1: "dict_keys ?pd1 = dict_keys corpus"
    using present Cons.prems(2) by (simp add: dict_keys_setitem)
  obtain ps pd' s' g' where
    run: "foldE (\<lambda>i. sample_step corpus d) is (?pd1, s1, ?g1) = Inr (pd', s', g')"
    and wk: "walk corpus d (length is) s1 ?g1 = Inr ps"
    and len: "length ps = Suc (length is)"
    and sub: "set ps \<subseteq> set (dict_keys corpus)"
    and keys': "dict_keys pd' = dict_keys corpus"
    and cnt: "\<forall>k. rank_of pd' k = rank_of ?pd1 k + real (count_list (butlast ps) k)"
    using Cons.IH [OF s1 keys1, of ?g1] by blast
  have ne: "ps \<noteq> []" using len by auto
  have 1: "foldE (\<lambda>i. sample_step corpus d) (i # is) (pd, sample, g) = Inr (pd', s', g')"
    using step run by simp
  have 2: "walk corpus d (length (i # is)) sample g = Inr (sample # ps)"
    using dr wk by (simp add: walk_draw del: walk.simps)
  have 3: "\<forall>k. rank_of pd' k = rank_of pd k + real (count_list (butlast (sample # ps)) k)"
    using cnt ne by (simp add: rank_of_setitem)
  show ?case using 1 2 3 len sub keys' Cons.prems(1) by auto
qed

lemma getitem_append_hit:
  "p \<notin> set (dict_keys A) \<Longrightarrow> getitem (A @ (p, v) # B) p = Inr v"
  by (auto simp: getitem_def dict_keys_def map_of_eq_None_iff [symmetric] split: option.splits)

lemma normalize_fold:
  assumes "n \<noteq> 0"
  shows "distinct (dict_keys (A @ B)) \<Longrightarrow>
    foldE (\<lambda>page pd.
        bindE (getitem pd page) (\<lambda>c.
        bindE (truediv c (real_of_int n)) (\<lambda>v.
        Inr (setitem pd page v))))
      (dict_keys B) (A @ B)
    = Inr (A @ map (\<lambda>(k, c). (k, c / real_of_int n)) B)"
proof (induction B arbitrary: A)
  case Nil
  then show ?case by simp
next
  case (Cons e B)
  obtain p c where e: "e = (p, c)" by (cases e)
  have fresh: "p \<notin> set (dict_keys A)" using Cons.prems e by (auto simp: dict_keys_def)
  have "distinct (dict_keys ((A @ [(p, c / real_of_int n)]) @ B))"
    using Cons.prems e by (auto simp: dict_keys_def)
  from Cons.IH [OF this] show ?case
    using fresh e assms by (simp add: getitem_append_hit setitem_append_hit truediv_def)
qed

lemma normalize_counts_eq:
  assumes "n \<noteq> 0" and "distinct (dict_keys pd)"
  shows "normalize_counts pd n = Inr (map (\<lambda>(k, c). (k, c / real_of_int n)) pd)"
  unfolding normalize_counts_def using normalize_fold [OF assms(1), of "[]" pd] assms(2) by simp

lemma normalize_counts_zero:
  assumes "pd \<noteq> []"
  shows "normalize_counts pd 0 = Inl ZeroDivisionError"
proof -
  obtain p c rest where pd: "pd = (p, c) # rest" using assms by (cases pd) auto
  show ?thesis by (simp add: pd normalize_counts_def getitem_def truediv_def)
qed

lemma dict_as_map:
  "distinct (dict_keys m) \<Longrightarrow> m = map (\<lambda>k. (k, rank_of m k)) (dict_keys m)"
proof (induction m)
  case Nil
  then show ?case by simp
next
  case (Cons e m)
  obtain p c where e: "e = (p, c)" by (cases e)
  have fresh: "p \<notin> set (dict_keys m)" using Cons.prems e by simp
  have same: "map (\<lambda>k. (k, rank_of (e # m) k)) (dict_keys m)
      = map (\<lambda>k. (k, rank_of m k)) (dict_keys m)"
    using fresh e by (intro map_cong) (auto simp: rank_of_def)
  have tail: "m = map (\<lambda>k. (k, rank_of m k)) (dict_keys m)"
    using Cons by simp
  have "rank_of (e # m) p = c" using e by (simp add: rank_of_def)
  then have "map (\<lambda>k. (k, rank_of (e # m) k)) (dict_keys (e # m))
      = e # map (\<lambda>k. (k, rank_of m k)) (dict_keys m)"
    using same e by simp
  then show ?case using tail by simp
qed

lemma count_sum:
  assumes "distinct ks" and "set xs \<subseteq> set ks"
  shows "sum_list (map (\<lambda>k. real (count_list xs k)) ks) = real (length xs)"
proof -
  have "sum_list (map (\<lambda>k. real (count_list xs k)) ks) = (\<Sum>k \<in> set ks. real (count_list xs k))"
    using assms(1) by (rule sum_list_distinct_conv_sum_set)
  also have "\<dots> = real (\<Sum>k \<in> set ks. count_list xs k)" by simp
  also have "(\<Sum>k \<in> set ks. count_list xs k) = length xs"
    using assms(2) by (intro sum_count_set) simp_all
  finally show ?thesis .
qed

lemma random_choice_member:
  assumes "seq \<noteq> []" and "valid_rng g"
  shows "\<exists>s. random_choice seq g = Inr (s, g\<lparr>pos := Suc (pos g)\<rparr>) \<and> s \<in> set seq"
proof -
  let ?u = "source g (pos g)"
  have u: "0 \<le> ?u" "?u < 1" using assms(2) by (simp_all add: valid_rng_def)
  have n: "0 < real (length seq)" using assms(1) by simp
  have "?u * real (length seq) < real (length seq)" using u n by simp
  then have "\<lfloor>?u * real (length seq)\<rfloor> < int (length seq)" by (simp add: floor_less_iff)
  moreover have "0 \<le> \<lfloor>?u * real (length seq)\<rfloor>" using u by simp
  ultimately have "nat \<lfloor>?u * real (length seq)\<rfloor> < length seq"
    by (simp add: nat_less_iff)
  then have "seq ! nat \<lfloor>?u * real (length seq)\<rfloor> \<in> set seq" by simp
  then show ?thesis using assms(1) by (simp add: random_choice_def random_random_def)
qed

lemma sum_list_map_divide:
  "sum_list (map (\<lambda>k. f k / (c::real)) ks) = sum_list (map f ks) / c"
  by (induction ks) (simp_all add: add_divide_distrib)

lemma rank_of_zero_map [simp]: "rank_of (map (\<lambda>k. (k, 0)) ks) q = 0"
  by (induction ks) (simp_all add: rank_of_def)

lemma sample_pagerank_eq:
  assumes "distinct (dict_keys corpus)" and "links_closed corpus" and "corpus \<noteq> []"
    and "1 \<le> n" and "valid_rng g"
  shows "\<exists>ps. walk_positions corpus d n g = Inr ps \<and> length ps = nat n
    \<and> set ps \<subseteq> set (dict_keys corpus)
    \<and> sample_pagerank corpus d n g
        = Inr (map (\<lambda>k. (k, real (count_list (butlast ps) k) / real_of_int n)) (dict_keys corpus))"
proof -
  let ?keys = "dict_keys corpus"
  let ?pd0 = "map (\<lambda>k. (k, 0::real)) ?keys"
  let ?g1 = "g\<lparr>pos := Suc (pos g)\<rparr>"
  have init: "foldE (\<lambda>page pd. Inr (setitem pd page 0)) ?keys [] = Inr ?pd0"
    using assms(1) by (simp add: foldE_build)
  have "?keys \<noteq> []" using assms(3) by (simp add: dict_keys_def)
  then obtain s0 where ch: "random_choice ?keys g = Inr (s0, ?g1)" and s0: "s0 \<in> set ?keys"
    using random_choice_member [OF _ assms(5)] by blast
  have keys0: "dict_keys ?pd0 = ?keys" by simp
  obtain ps pd' s' g' where
    run: "foldE (\<lambda>i. sample_step corpus d) [1..<nat n] (?pd0, s0, ?g1) = Inr (pd', s', g')"
    and wk: "walk corpus d (length [1..<nat n]) s0 ?g1 = Inr ps"
    and len: "length ps = Suc (length [1..<nat n])"
    and sub: "set ps \<subseteq> set ?keys"
    and keys': "dict_keys pd' = ?keys"
    and cnt: "\<forall>k. rank_of pd' k = rank_of ?pd0 k + real (count_list (butlast ps) k)"
    using sample_loop [OF assms(1,2) s0 keys0, of d "[1..<nat n]" ?g1] by blast
  have steps: "length [1..<nat n] = nat (n - 1)" using assms(4) by simp
  have 1: "walk_positions corpus d n g = Inr ps"
    using ch wk steps by (simp add: walk_positions_def)
  have 2: "length ps = nat n" using len assms(4) by simp
  have "pd' = map (\<lambda>k. (k, rank_of pd' k)) (dict_keys pd')"
    using keys' assms(1) by (intro dict_as_map) simp
  then have pd': "pd' = map (\<lambda>k. (k, real (count_list (butlast ps) k))) ?keys"
    using cnt keys' by simp
  have "n \<noteq> 0" using assms(4) by simp
  moreover have "distinct (dict_keys pd')" using keys' assms(1) by simp
  ultimately have "normalize_counts pd' n = Inr (map (\<lambda>(k, c). (k, c / real_of_int n)) pd')"
    by (rule normalize_counts_eq)
  also have "map (\<lambda>(k, c). (k, c / real_of_int n)) pd'
      = map (\<lambda>k. (k, real (count_list (butlast ps) k) / real_of_int n)) ?keys"
    by (subst pd') (simp add: comp_def)
  finally have 3: "sample_pagerank corpus d n g
      = Inr (map (\<lambda>k. (k, real (count_list (butlast ps) k) / real_of_int n)) ?keys)"
    using init ch run by (simp add: sample_pagerank_def)
  show ?thesis using 1 2 3 sub by blast
qed

text \<open>
  Claim C4. For a corpus with at least one page, any damping factor, a sample count
  \<open>n \<ge> 1\<close> and any valid generator, the walk visits \<open>n\<close> positions; the estimator
  returns, for every page, the number of times the page occurs among the first \<open>n - 1\<close>
  positions, divided by \<open>n\<close> (the last position is never tallied), and the values it
  returns sum to \<open>(n - 1) / n\<close>.
\<close>

theorem sample_pagerank_tally:
  assumes "distinct (dict_keys corpus)" and "links_closed corpus" and "corpus \<noteq> []"
    and "1 \<le> n" and "valid_rng g"
  shows "\<exists>ps result. walk_positions corpus d n g = Inr ps \<and> length ps = nat n
    \<and> sample_pagerank corpus d n g = Inr result
    \<and> result = map (\<lambda>k. (k, real (count_list (butlast ps) k) / real_of_int n)) (dict_keys corpus)
    \<and> sum_list (dict_values result) = (real_of_int n - 1) / real_of_int n"
proof -
  obtain ps where wk: "walk_positions corpus d n g = Inr ps" and len: "length ps = nat n"
    and sub: "set ps \<subseteq> set (dict_keys corpus)"
    and res: "sample_pagerank corpus d n g
        = Inr (map (\<lambda>k. (k, real (count_list (butlast ps) k) / real_of_int n)) (dict_keys corpus))"
    using sample_pagerank_eq [OF assms, of d] by blast
  let ?result = "map (\<lambda>k. (k, real (count_list (butlast ps) k) / real_of_int n)) (dict_keys corpus)"
  have "set (butlast ps) \<subseteq> set (dict_keys corpus)"
    using sub by (meson in_set_butlastD subsetD subsetI)
  then have total: "sum_list (map (\<lambda>k. real (count_list (butlast ps) k)) (dict_keys corpus))
      = real (length (butlast ps))"
    using assms(1) by (intro count_sum)
  have "sum_list (dict_values ?result)
      = sum_list (map (\<lambda>k. real (count_list (butlast ps) k)) (dict_keys corpus)) / real_of_int n"
    by (simp add: dict_values_def comp_def sum_list_map_divide)
  also have "\<dots> = (real_of_int n - 1) / real_of_int n"
    using total len assms(4) by (simp add: of_nat_diff)
  finally show ?thesis using wk len res by blast
qed

theorem sample_pagerank_tally_witness:
  "\<exists>ps result.
     walk_positions [(''A'', {|''B''|}), (''B'', {|''C''|}), (''C'', {||})] (1 / 2) 6
        \<lparr>source = (\<lambda>i. if even i then 0 else 9 / 10), pos = 0\<rparr> = Inr ps
     \<and> length ps = 6
     \<and> sample_pagerank [(''A'', {|''B''|}), (''B'', {|''C''|}), (''C'', {||})] (1 / 2) 6
        \<lparr>source = (\<lambda>i. if even i then 0 else 9 / 10), pos = 0\<rparr> = Inr result
     \<and> result = map (\<lambda>k. (k, real (count_list (butlast ps) k) / 6)) [''A'', ''B'', ''C'']
     \<and> sum_list (dict_values result) = 5 / 6"
proof -
  let ?corpus = "[(''A'', {|''B''|}), (''B'', {|''C''|}), (''C'', {||})]"
  let ?g = "\<lparr>source = (\<lambda>i::nat. if even i then 0 else 9 / 10 :: real), pos = 0\<rparr>"
  have 1: "distinct (dict_keys ?corpus)" by simp
  have 2: "links_closed ?corpus" by (simp add: links_closed_def)
  have 3: "?corpus \<noteq> []" by simp
  have 4: "(1::int) \<le> 6" by simp
  have 5: "valid_rng ?g" by (simp add: valid_rng_def)
  show ?thesis using sample_pagerank_tally [OF 1 2 3 4 5, of "1 / 2"] by simp
qed

text \<open>The same run, evaluated: the walk visits \<open>A, C, A, C, A, C\<close> and the last \<open>C\<close> is not tallied.\<close>

lemma sample_run:
  "sample_pagerank [(''A'', {|''B''|}), (''B'', {|''C''|}), (''C'', {||})] (1 / 2) 6
        \<lparr>source = (\<lambda>i. if even i then 0 else 9 / 10), pos = 0\<rparr>
     = Inr [(''A'', 1 / 2), (''B'', 0), (''C'', 1 / 3)]"
  by (simp add: sample_pagerank_def sample_step_def normalize_counts_def transition_model_def
      random_choice_def random_choices_def random_random_def accumulate_def bisect.simps
      truediv_def getitem_def setitem_def fcard_finsert_if fcard_fempty Let_def upt_rec)

section \<open>Inputs the specification calls invalid\<close>

lemma sample_pagerank_empty: "sample_pagerank [] d n g = Inl IndexError"
  by (simp add: sample_pagerank_def random_choice_def)

lemma sample_pagerank_no_steps:
  assumes "distinct (dict_keys corpus)" and "corpus \<noteq> []" and "n \<le> 0"
  shows "sample_pagerank corpus d n g
    = normalize_counts (map (\<lambda>k. (k, 0)) (dict_keys corpus)) n"
proof -
  have init: "foldE (\<lambda>page pd. Inr (setitem pd page 0)) (dict_keys corpus) []
      = Inr (map (\<lambda>k. (k, 0::real)) (dict_keys corpus))"
    using assms(1) by (simp add: foldE_build)
  have "dict_keys corpus \<noteq> []" using assms(2) by (simp add: dict_keys_def)
  then have ch: "random_choice (dict_keys corpus) g
      = Inr (dict_keys corpus ! nat \<lfloor>source g (pos g) * real (length (dict_keys corpus))\<rfloor>,
             g\<lparr>pos := Suc (pos g)\<rparr>)"
    by (simp add: random_choice_def random_random_def)
  have no_steps: "[1..<nat n] = []" using assms(3) by simp
  show ?thesis unfolding sample_pagerank_def init ch no_steps by simp
qed

lemma no_validation_facts:
  shows "iterate_pagerank [] d = Some (Inr [])"
    and "sample_pagerank [] d n g = Inl IndexError"
    and "distinct (dict_keys corpus) \<Longrightarrow> corpus \<noteq> [] \<Longrightarrow>
      sample_pagerank corpus d 0 g = Inl ZeroDivisionError"
    and "distinct (dict_keys corpus) \<Longrightarrow> corpus \<noteq> [] \<Longrightarrow> n < 0 \<Longrightarrow>
      sample_pagerank corpus d n g = Inr (map (\<lambda>k. (k, 0)) (dict_keys corpus))"
proof -
  show "iterate_pagerank [] d = Some (Inr [])" by (rule empty_iterate)
  show "sample_pagerank [] d n g = Inl IndexError" by (rule sample_pagerank_empty)
  show "sample_pagerank corpus d 0 g = Inl ZeroDivisionError"
    if "distinct (dict_keys corpus)" and "corpus \<noteq> []"
  proof -
    have "map (\<lambda>k. (k, 0::real)) (dict_keys corpus) \<noteq> []"
      using that(2) by (simp add: dict_keys_def)
    then show ?thesis using that by (simp add: sample_pagerank_no_steps normalize_counts_zero)
  qed
  show "sample_pagerank corpus d n g = Inr (map (\<lambda>k. (k, 0)) (dict_keys corpus))"
    if "distinct (dict_keys corpus)" and "corpus \<noteq> []" and "n < 0"
  proof -
    have "n \<noteq> 0" using that(3) by simp
    moreover have "distinct (dict_keys (map (\<lambda>k. (k, 0::real)) (dict_keys corpus)))"
      using that(1) by simp
    ultimately have "normalize_counts (map (\<lambda>k. (k, 0)) (dict_keys corpus)) n
        = Inr (map (\<lambda>(k, c). (k, c / real_of_int n)) (map (\<lambda>k. (k, 0)) (dict_keys corpus)))"
      by (rule normalize_counts_eq)
    then show ?thesis using that by (simp add: sample_pagerank_no_steps comp_def)
  qed
qed


text \<open>
  Claim C5, as amended. Neither estimator validates its input. On a corpus with no page the
  iterative solver returns the empty mapping, and the sampling estimator fails with
  IndexError when it draws the start page, whatever the sample count. On a corpus with at
  least one page the sampling estimator fails with ZeroDivisionError for a sample count of 0,
  when it divides the counts, and for a negative sample count it returns the mapping that
  gives 0 to every page.
\<close>

theorem no_input_validation:
  "iterate_pagerank ([] :: 'a corpus) d = Some (Inr [])
   \<and> sample_pagerank ([] :: 'a corpus) d n g = Inl IndexError
   \<and> (distinct (dict_keys corpus) \<and> corpus \<noteq> [] \<longrightarrow>
        sample_pagerank (corpus :: 'a corpus) d 0 g = Inl ZeroDivisionError
        \<and> (n < 0 \<longrightarrow> sample_pagerank corpus d n g = Inr (map (\<lambda>k. (k, 0)) (dict_keys corpus))))"
proof (intro conjI impI)
  show "iterate_pagerank ([] :: 'a corpus) d = Some (Inr [])"
    by (rule no_validation_facts(1))
  show "sample_pagerank ([] :: 'a corpus) d n g = Inl IndexError"
    by (rule no_validation_facts(2))
  show "sample_pagerank corpus d 0 g = Inl ZeroDivisionError"
    if "distinct (dict_keys corpus) \<and> corpus \<noteq> []"
    using that by (intro no_validation_facts(3)) simp_all
  show "sample_pagerank corpus d n g = Inr (map (\<lambda>k. (k, 0)) (dict_keys corpus))"
    if "distinct (dict_keys corpus) \<and> corpus \<noteq> []" and "n < 0"
    using that by (intro no_validation_facts(4)) simp_all
qed

theorem no_input_validation_witness:
  "iterate_pagerank ([] :: string corpus) (17 / 20) = Some (Inr [])
   \<and> sample_pagerank ([] :: string corpus) (17 / 20) (- 3) \<lparr>source = (\<lambda>i. 0), pos = 0\<rparr>
       = Inl IndexError
   \<and> sample_pagerank [(''A'', {|''B''|}), (''B'', {||})] (17 / 20) 0 \<lparr>source = (\<lambda>i. 0), pos = 0\<rparr>
       = Inl ZeroDivisionError
   \<and> sample_pagerank [(''A'', {|''B''|}), (''B'', {||})] (17 / 20) (- 3)
         \<lparr>source = (\<lambda>i. 0), pos = 0\<rparr>
       = Inr [(''A'', 0), (''B'', 0)]"
  using no_input_validation [of "17 / 20" "- 3" "\<lparr>source = (\<lambda>i. 0), pos = 0\<rparr>"
      "[(''A'', {|''B''|}), (''B'', {||})]"]
  by simp

text \<open>
  Claim C5 as stated fails: the iterative solver returns a result for the corpus with no
  page, and the sampling estimator returns a result for the sample count \<open>-1\<close>.
\<close>

theorem estimators_accept_invalid_input:
  "iterate_pagerank ([] :: string corpus) (17 / 20) = Some (Inr [])
   \<and> sample_pagerank [(''A'', {||})] (17 / 20) (- 1) \<lparr>source = (\<lambda>i. 0), pos = 0\<rparr>
       = Inr [(''A'', 0)]"
  by (simp add: iterate_pagerank_def initial_ranks_def iterate_loop.simps sweep_def
      sample_pagerank_def normalize_counts_def random_choice_def random_random_def
      truediv_def getitem_def setitem_def)

section \<open>The single page and the two-page cycle\<close>

lemma single_page_sample:
  assumes "valid_rng g" and "1 \<le> n"
  shows "sample_pagerank [(a, {||})] d n g = Inr [(a, (real_of_int n - 1) / real_of_int n)]"
proof -
  have 1: "distinct (dict_keys [(a, {||})])" by simp
  have 2: "links_closed [(a, {||})]" by (simp add: links_closed_def)
  obtain ps where len: "length ps = nat n" and sub: "set ps \<subseteq> set (dict_keys [(a, {||})])"
    and res: "sample_pagerank [(a, {||})] d n g
        = Inr (map (\<lambda>k. (k, real (count_list (butlast ps) k) / real_of_int n))
                 (dict_keys [(a, {||})]))"
    using sample_pagerank_eq [OF 1 2 _ assms(2,1), of d] by auto
  have "set (butlast ps) \<subseteq> set [a]"
    using sub by (auto dest: in_set_butlastD)
  then have "sum_list (map (\<lambda>k. real (count_list (butlast ps) k)) [a]) = real (length (butlast ps))"
    by (intro count_sum) simp_all
  then have "real (count_list (butlast ps) a) = real_of_int n - 1"
    using len assms(2) by (simp add: of_nat_diff)
  then show ?thesis using res by simp
qed

text \<open>
  Claim C6 asks for rank 1 on the corpus of one page without links. With damping factor 0.85
  the iterative solver returns 0.15 for the page, and with 10000 samples the sampling
  estimator returns 0.9999.
\<close>

theorem single_page_rank_below_one:
  "iterate_pagerank [(''A'', {||})] (17 / 20) = Some (Inr [(''A'', 3 / 20)])
   \<and> sample_pagerank [(''A'', {||})] (17 / 20) 10000 \<lparr>source = (\<lambda>i. 0), pos = 0\<rparr>
       = Inr [(''A'', 9999 / 10000)]"
proof -
  have "iterate_pagerank [(''A'', {||})] (17 / 20) = Some (Inr [(''A'', 1 - 17 / 20)])"
    by (rule single_dead_end_iterate) simp
  moreover have "valid_rng \<lparr>source = (\<lambda>i. 0), pos = 0\<rparr>" by (simp add: valid_rng_def)
  then have "sample_pagerank [(''A'', {||})] (17 / 20) 10000 \<lparr>source = (\<lambda>i. 0), pos = 0\<rparr>
      = Inr [(''A'', (real_of_int 10000 - 1) / real_of_int 10000)]"
    by (rule single_page_sample) simp
  ultimately show ?thesis by simp
qed

section \<open>The sampling estimator on the two-page cycle\<close>

lemma two_cycle_step_prob:
  assumes "a \<noteq> b"
  shows "step_prob [(a, {|b|}), (b, {|a|})] d a a = (1 - d) / 2"
    and "step_prob [(a, {|b|}), (b, {|a|})] d a b = (1 + d) / 2"
    and "step_prob [(a, {|b|}), (b, {|a|})] d b a = (1 + d) / 2"
    and "step_prob [(a, {|b|}), (b, {|a|})] d b b = (1 - d) / 2"
  using assms by (simp_all add: step_prob_def two_cycle_transition rank_of_def field_simps)

lemma two_cycle_draw:
  assumes "a \<noteq> b" and "p = a \<or> p = b"
  shows "draw [(a, {|b|}), (b, {|a|})] d p g
    = Inr (if source g (pos g) < step_prob [(a, {|b|}), (b, {|a|})] d p a then a else b,
           g\<lparr>pos := Suc (pos g)\<rparr>)"
proof -
  have sum1: "(1 - d) / 2 + (d + (1 - d) / 2) = 1" by (simp add: field_simps)
  have sum2: "d + (1 - d) / 2 + (1 - d) / 2 = 1" by (simp add: field_simps)
  have half: "d + (1 - d) / 2 = (1 + d) / 2" by (simp add: field_simps)
  have sum3: "(1 + d) / 2 + (1 - d) / 2 = 1" by (simp add: field_simps)
  show ?thesis
  proof (cases "p = a")
    case True
    show ?thesis
      unfolding True draw_def two_cycle_transition(1) [OF assms(1)] two_cycle_step_prob(1) [OF assms(1)]
      by (simp add: random_choices_def random_random_def accumulate_def Let_def sum1
          bisect.simps [of _ _ 0 "Suc 0"] bisect.simps [of _ _ 0 0] bisect.simps [of _ _ "Suc 0" "Suc 0"])
  next
    case False
    then have p: "p = b" using assms(2) by simp
    show ?thesis
      unfolding p draw_def two_cycle_transition(2) [OF assms(1)] two_cycle_step_prob(3) [OF assms(1)]
      by (simp add: random_choices_def random_random_def accumulate_def Let_def sum2 sum3 half
          bisect.simps [of _ _ 0 "Suc 0"] bisect.simps [of _ _ 0 0] bisect.simps [of _ _ "Suc 0" "Suc 0"])
  qed
qed

lemma two_page_choice:
  assumes "valid_rng g"
  shows "random_choice [a, b] g
    = Inr (if source g (pos g) < 1 / 2 then a else b, g\<lparr>pos := Suc (pos g)\<rparr>)"
proof -
  let ?u = "source g (pos g)"
  have u: "0 \<le> ?u" "?u < 1" using assms by (simp_all add: valid_rng_def)
  have "\<lfloor>?u * 2\<rfloor> = (if ?u < 1 / 2 then 0 else 1)"
    using u by (auto simp: floor_eq_iff)
  then show ?thesis by (simp add: random_choice_def random_random_def)
qed

lemma two_cycle_walk:
  assumes "a \<noteq> b"
  shows "p = a \<or> p = b \<Longrightarrow>
    \<exists>ps. walk [(a, {|b|}), (b, {|a|})] d k p g = Inr ps \<and> length ps = Suc k
      \<and> ps ! 0 = p \<and> set ps \<subseteq> {a, b}
      \<and> (\<forall>i < k. ps ! Suc i
            = (if source g (pos g + i) < step_prob [(a, {|b|}), (b, {|a|})] d (ps ! i) a
               then a else b))"
proof (induction k arbitrary: p g)
  case 0
  then show ?case by auto
next
  case (Suc k)
  let ?C = "[(a, {|b|}), (b, {|a|})]"
  let ?q = "if source g (pos g) < step_prob ?C d p a then a else b"
  let ?g1 = "g\<lparr>pos := Suc (pos g)\<rparr>"
  have dr: "draw ?C d p g = Inr (?q, ?g1)" using assms Suc.prems by (rule two_cycle_draw)
  have q: "?q = a \<or> ?q = b" by simp
  obtain ps where wk: "walk ?C d k ?q ?g1 = Inr ps" and len: "length ps = Suc k"
    and hd: "ps ! 0 = ?q" and sub: "set ps \<subseteq> {a, b}"
    and steps: "\<forall>i < k. ps ! Suc i
            = (if source ?g1 (pos ?g1 + i) < step_prob ?C d (ps ! i) a then a else b)"
    using Suc.IH [OF q, of ?g1] by blast
  have 1: "walk ?C d (Suc k) p g = Inr (p # ps)"
    using dr wk by (simp add: walk_draw del: walk.simps)
  have 2: "(p # ps) ! Suc i
      = (if source g (pos g + i) < step_prob ?C d ((p # ps) ! i) a then a else b)"
    if i: "i < Suc k" for i
  proof (cases i)
    case 0
    then show ?thesis using hd by simp
  next
    case (Suc j)
    then have "j < k" using i by simp
    then show ?thesis using steps Suc by simp
  qed
  have 3: "set (p # ps) \<subseteq> {a, b}" using sub Suc.prems by auto
  show ?case using 1 2 3 len by auto
qed

lemma lead_simps [simp]:
  "lead t [] = 0" "lead t (p # ps) = (if p = t then 1 else - 1) + lead t ps"
  by (simp_all add: lead_def)

lemma count_as_lead: "real (count_list ps t) = (lead t ps + real (length ps)) / 2"
  by (induction ps) (simp_all add: field_simps)

lemma expect_from_cong:
  "(\<And>ps. length ps = k \<Longrightarrow> f (p # ps) = g (p # ps)) \<Longrightarrow>
   expect_from corpus d k p f = expect_from corpus d k p g"
proof (induction k arbitrary: p f g)
  case 0
  then show ?case by simp
next
  case (Suc k)
  have "expect_from corpus d k q (\<lambda>ps. f (p # ps)) = expect_from corpus d k q (\<lambda>ps. g (p # ps))"
    for q
    by (rule Suc.IH) (simp add: Suc.prems)
  then show ?case by simp
qed

lemma expect_from_scale:
  "expect_from corpus d k p (\<lambda>ps. c * f ps) = c * expect_from corpus d k p f"
proof (induction k arbitrary: p f)
  case 0
  then show ?case by simp
next
  case (Suc k)
  have "sum_list (map (\<lambda>q. step_prob corpus d p q * (c * expect_from corpus d k q (\<lambda>ps. f (p # ps))))
          (dict_keys corpus))
      = c * sum_list (map (\<lambda>q. step_prob corpus d p q * expect_from corpus d k q (\<lambda>ps. f (p # ps)))
          (dict_keys corpus))"
    by (simp add: sum_list_const_mult mult.left_commute)
  then show ?case by (simp add: Suc.IH)
qed

lemma expect_from_mono:
  assumes "\<And>p q. 0 \<le> step_prob corpus d p q"
  shows "(\<And>ps. f ps \<le> g ps) \<Longrightarrow> expect_from corpus d k p f \<le> expect_from corpus d k p g"
proof (induction k arbitrary: p f g)
  case 0
  then show ?case by simp
next
  case (Suc k)
  have "expect_from corpus d k q (\<lambda>ps. f (p # ps)) \<le> expect_from corpus d k q (\<lambda>ps. g (p # ps))"
    for q
    by (rule Suc.IH) (simp add: Suc.prems)
  then show ?case
    by (auto intro!: sum_list_mono mult_left_mono assms)
qed

lemma expect_from_two:
  "expect_from [(a, A), (b, B)] d (Suc k) p f
    = step_prob [(a, A), (b, B)] d p a * expect_from [(a, A), (b, B)] d k a (\<lambda>ps. f (p # ps))
    + step_prob [(a, A), (b, B)] d p b * expect_from [(a, A), (b, B)] d k b (\<lambda>ps. f (p # ps))"
  by simp

text \<open>Moments of the lead on the two-page cycle.\<close>

lemma two_cycle_moments:
  assumes "a \<noteq> b" and "0 < d" and "d < 1" and "t = a \<or> t = b"
  shows "\<exists>m v. 0 \<le> m \<and> m \<le> 1 \<and> v \<le> real k
    \<and> (\<forall>c. \<forall>p. p = a \<or> p = b \<longrightarrow>
          expect_from [(a, {|b|}), (b, {|a|})] d k p (\<lambda>ps. c + lead t (butlast ps))
            = c + (if p = t then 1 else - 1) * m
          \<and> expect_from [(a, {|b|}), (b, {|a|})] d k p (\<lambda>ps. (c + lead t (butlast ps))\<^sup>2)
            = c\<^sup>2 + 2 * c * (if p = t then 1 else - 1) * m + v)"
proof (induction k)
  case 0
  have "0 \<le> (0::real) \<and> (0::real) \<le> 1 \<and> (0::real) \<le> real 0
    \<and> (\<forall>c. \<forall>p. p = a \<or> p = b \<longrightarrow>
          expect_from [(a, {|b|}), (b, {|a|})] d 0 p (\<lambda>ps. c + lead t (butlast ps))
            = c + (if p = t then 1 else - 1) * 0
          \<and> expect_from [(a, {|b|}), (b, {|a|})] d 0 p (\<lambda>ps. (c + lead t (butlast ps))\<^sup>2)
            = c\<^sup>2 + 2 * c * (if p = t then 1 else - 1) * 0 + 0)"
    by simp
  then show ?case by blast
next
  case (Suc k)
  let ?C = "[(a, {|b|}), (b, {|a|})]"
  let ?s = "\<lambda>p. if p = t then 1 else - 1 :: real"
  obtain m v where m: "0 \<le> m" "m \<le> 1" and v: "v \<le> real k"
    and first: "\<And>c p. p = a \<or> p = b \<Longrightarrow>
          expect_from ?C d k p (\<lambda>ps. c + lead t (butlast ps)) = c + ?s p * m"
    and second: "\<And>c p. p = a \<or> p = b \<Longrightarrow>
          expect_from ?C d k p (\<lambda>ps. (c + lead t (butlast ps))\<^sup>2)
            = c\<^sup>2 + 2 * c * ?s p * m + v"
    using Suc by blast
  let ?m' = "1 - d * m"
  let ?v' = "1 - 2 * d * m + v"
  have m': "0 \<le> ?m'" "?m' \<le> 1"
  proof -
    have "d * m \<le> 1 * 1" using m assms(2,3) by (intro mult_mono) simp_all
    then show "0 \<le> ?m'" by simp
    have "0 \<le> d * m" using m assms(2) by simp
    then show "?m' \<le> 1" by simp
  qed
  have v': "?v' \<le> real (Suc k)"
  proof -
    have "0 \<le> d * m" using m assms(2) by simp
    then show ?thesis using v by simp
  qed
  have shift: "lead t (butlast (p # q # ps)) = ?s p + lead t (butlast (q # ps))" for p q ps
    by simp
  have shift1: "expect_from ?C d k q (\<lambda>ps. c + lead t (butlast (p # ps)))
      = (c + ?s p) + ?s q * m" if "q = a \<or> q = b" for c p q
  proof -
    have "expect_from ?C d k q (\<lambda>ps. c + lead t (butlast (p # ps)))
        = expect_from ?C d k q (\<lambda>ps. (c + ?s p) + lead t (butlast ps))"
      by (rule expect_from_cong) (simp only: shift add.assoc)
    then show ?thesis using first [OF that] by simp
  qed
  have shift2: "expect_from ?C d k q (\<lambda>ps. (c + lead t (butlast (p # ps)))\<^sup>2)
      = (c + ?s p)\<^sup>2 + 2 * (c + ?s p) * ?s q * m + v" if "q = a \<or> q = b" for c p q
  proof -
    have "expect_from ?C d k q (\<lambda>ps. (c + lead t (butlast (p # ps)))\<^sup>2)
        = expect_from ?C d k q (\<lambda>ps. ((c + ?s p) + lead t (butlast ps))\<^sup>2)"
      by (rule expect_from_cong) (simp only: shift add.assoc)
    then show ?thesis using second [OF that] by simp
  qed
  have probs: "step_prob ?C d a a = (1 - d) / 2" "step_prob ?C d a b = (1 + d) / 2"
    "step_prob ?C d b a = (1 + d) / 2" "step_prob ?C d b b = (1 - d) / 2"
    using two_cycle_step_prob [OF assms(1)] by simp_all
  have one: "expect_from ?C d (Suc k) p (\<lambda>ps. c + lead t (butlast ps)) = c + ?s p * ?m'"
    if p: "p = a \<or> p = b" for c p
  proof -
    have "expect_from ?C d (Suc k) p (\<lambda>ps. c + lead t (butlast ps))
        = step_prob ?C d p a * ((c + ?s p) + ?s a * m)
        + step_prob ?C d p b * ((c + ?s p) + ?s b * m)"
      by (simp only: expect_from_two shift1 [of a] shift1 [of b] simp_thms)
    also have "\<dots> = c + ?s p * ?m'"
      using p assms(1,4) by (auto simp: probs field_simps)
    finally show ?thesis .
  qed
  have two: "expect_from ?C d (Suc k) p (\<lambda>ps. (c + lead t (butlast ps))\<^sup>2)
      = c\<^sup>2 + 2 * c * ?s p * ?m' + ?v'"
    if p: "p = a \<or> p = b" for c p
  proof -
    have "expect_from ?C d (Suc k) p (\<lambda>ps. (c + lead t (butlast ps))\<^sup>2)
        = step_prob ?C d p a * ((c + ?s p)\<^sup>2 + 2 * (c + ?s p) * ?s a * m + v)
        + step_prob ?C d p b * ((c + ?s p)\<^sup>2 + 2 * (c + ?s p) * ?s b * m + v)"
      by (simp only: expect_from_two shift2 [of a] shift2 [of b] simp_thms)
    also have "\<dots> = c\<^sup>2 + 2 * c * ?s p * ?m' + ?v'"
      using p assms(1,4) by (auto simp: probs power2_eq_square field_simps)
    finally show ?thesis .
  qed
  show ?case using m' v' one two by blast
qed

lemma expect_walk_two:
  "expect_walk [(a, A), (b, B)] d n f
    = 1 / 2 * expect_from [(a, A), (b, B)] d (nat (n - 1)) a f
    + 1 / 2 * expect_from [(a, A), (b, B)] d (nat (n - 1)) b f"
  by (simp add: expect_walk_def)

lemma two_cycle_step_prob_nonneg:
  assumes "a \<noteq> b" and "0 < d" and "d < 1"
  shows "0 \<le> step_prob [(a, {|b|}), (b, {|a|})] d p q"
proof -
  let ?C = "[(a, {|b|}), (b, {|a|})]"
  show ?thesis
  proof (cases "transition_model ?C p d")
    case (Inl e)
    then show ?thesis by (simp add: step_prob_def)
  next
    case (Inr prob)
    have p: "p = a \<or> p = b"
      using Inr by (auto simp: transition_model_def getitem_def split: if_splits)
    have "0 \<le> rank_of prob q"
      using p Inr assms two_cycle_transition [OF assms(1), of d]
      by (auto simp: rank_of_def)
    then show ?thesis using Inr by (simp add: step_prob_def)
  qed
qed

lemma rank_as_lead:
  assumes "length ps = nat (n - 1)" and "1 \<le> n"
  shows "rank_from_positions n (p # ps) t
    = 1 / (2 * real_of_int n) * ((real_of_int n - 1) + lead t (butlast (p # ps)))"
proof -
  define xs where "xs = butlast (p # ps)"
  have "length xs = length ps" unfolding xs_def by (simp only: length_butlast) simp
  then have "real (length xs) = real_of_int n - 1"
    using assms by simp
  then have "real (count_list xs t) / real_of_int n
      = 1 / (2 * real_of_int n) * ((real_of_int n - 1) + lead t xs)"
    by (simp add: count_as_lead)
  then show ?thesis by (simp only: rank_from_positions_def xs_def)
qed

lemma deviation_as_lead:
  assumes "length ps = nat (n - 1)" and "1 \<le> n"
  shows "(rank_from_positions n (p # ps) t - 1 / 2)\<^sup>2
    = (1 / (2 * real_of_int n))\<^sup>2 * (- 1 + lead t (butlast (p # ps)))\<^sup>2"
proof -
  define L where "L = lead t (butlast (p # ps))"
  have n: "real_of_int n \<noteq> 0" using assms(2) by simp
  have "rank_from_positions n (p # ps) t = 1 / (2 * real_of_int n) * ((real_of_int n - 1) + L)"
    unfolding L_def by (rule rank_as_lead [OF assms])
  then have "rank_from_positions n (p # ps) t - 1 / 2 = 1 / (2 * real_of_int n) * (- 1 + L)"
    using n by (simp add: field_simps)
  then have "(rank_from_positions n (p # ps) t - 1 / 2)\<^sup>2
      = (1 / (2 * real_of_int n))\<^sup>2 * (- 1 + L)\<^sup>2"
    by (simp only: power_mult_distrib)
  then show ?thesis by (simp only: L_def)
qed

lemma two_cycle_expected_rank:
  assumes "a \<noteq> b" and "0 < d" and "d < 1" and "t = a \<or> t = b" and "1 \<le> n"
  shows "expect_walk [(a, {|b|}), (b, {|a|})] d n (\<lambda>ps. rank_from_positions n ps t)
      = (real_of_int n - 1) / (2 * real_of_int n)"
    and "expect_walk [(a, {|b|}), (b, {|a|})] d n (\<lambda>ps. (rank_from_positions n ps t - 1 / 2)\<^sup>2)
      \<le> 1 / (4 * real_of_int n)"
proof -
  let ?C = "[(a, {|b|}), (b, {|a|})]"
  let ?k = "nat (n - 1)"
  let ?s = "\<lambda>p. if p = t then 1 else - 1 :: real"
  let ?r = "1 / (2 * real_of_int n)"
  have n: "0 < real_of_int n" using assms(5) by simp
  obtain m v where v: "v \<le> real ?k"
    and first: "\<And>c p. p = a \<or> p = b \<Longrightarrow>
          expect_from ?C d ?k p (\<lambda>ps. c + lead t (butlast ps)) = c + ?s p * m"
    and second: "\<And>c p. p = a \<or> p = b \<Longrightarrow>
          expect_from ?C d ?k p (\<lambda>ps. (c + lead t (butlast ps))\<^sup>2)
            = c\<^sup>2 + 2 * c * ?s p * m + v"
    using two_cycle_moments [OF assms(1-4), of ?k] by blast
  have sign: "?s a + ?s b = 0" using assms(1,4) by auto
  have e1: "expect_from ?C d ?k p (\<lambda>ps. rank_from_positions n ps t)
      = ?r * ((real_of_int n - 1) + ?s p * m)" if p: "p = a \<or> p = b" for p
  proof -
    have "expect_from ?C d ?k p (\<lambda>ps. rank_from_positions n ps t)
        = expect_from ?C d ?k p (\<lambda>ps. ?r * ((real_of_int n - 1) + lead t (butlast ps)))"
      by (rule expect_from_cong) (simp only: rank_as_lead [OF _ assms(5)])
    then show ?thesis by (simp only: expect_from_scale first [OF p])
  qed
  have e2: "expect_from ?C d ?k p (\<lambda>ps. (rank_from_positions n ps t - 1 / 2)\<^sup>2)
      = ?r\<^sup>2 * (1 - 2 * ?s p * m + v)" if p: "p = a \<or> p = b" for p
  proof -
    have "expect_from ?C d ?k p (\<lambda>ps. (rank_from_positions n ps t - 1 / 2)\<^sup>2)
        = expect_from ?C d ?k p (\<lambda>ps. ?r\<^sup>2 * (- 1 + lead t (butlast ps))\<^sup>2)"
      by (rule expect_from_cong) (simp only: deviation_as_lead [OF _ assms(5)])
    then have "expect_from ?C d ?k p (\<lambda>ps. (rank_from_positions n ps t - 1 / 2)\<^sup>2)
        = ?r\<^sup>2 * ((- 1)\<^sup>2 + 2 * (- 1) * ?s p * m + v)"
      by (simp only: expect_from_scale second [OF p])
    then show ?thesis by simp
  qed
  have alg1: "1 / 2 * (r * (x + sa * m)) + 1 / 2 * (r * (x + sb * m))
      = r * x + 1 / 2 * r * m * (sa + sb)" for r x sa sb :: real
    by (simp add: algebra_simps)
  have alg2: "1 / 2 * (q * (1 - 2 * sa * m + v)) + 1 / 2 * (q * (1 - 2 * sb * m + v))
      = q * (1 + v) - q * m * (sa + sb)" for q sa sb :: real
    by (simp add: algebra_simps)
  have "expect_walk ?C d n (\<lambda>ps. rank_from_positions n ps t)
      = 1 / 2 * (?r * ((real_of_int n - 1) + ?s a * m)) + 1 / 2 * (?r * ((real_of_int n - 1) + ?s b * m))"
    by (simp only: expect_walk_two e1 simp_thms)
  also have "\<dots> = ?r * (real_of_int n - 1) + 1 / 2 * ?r * m * (?s a + ?s b)"
    by (rule alg1)
  also have "\<dots> = ?r * (real_of_int n - 1)"
    by (simp only: sign mult_zero_right add_0_right)
  also have "\<dots> = (real_of_int n - 1) / (2 * real_of_int n)"
    by simp
  finally show "expect_walk ?C d n (\<lambda>ps. rank_from_positions n ps t)
      = (real_of_int n - 1) / (2 * real_of_int n)" .
  have "expect_walk ?C d n (\<lambda>ps. (rank_from_positions n ps t - 1 / 2)\<^sup>2)
      = 1 / 2 * (?r\<^sup>2 * (1 - 2 * ?s a * m + v)) + 1 / 2 * (?r\<^sup>2 * (1 - 2 * ?s b * m + v))"
    by (simp only: expect_walk_two e2 simp_thms)
  also have "\<dots> = ?r\<^sup>2 * (1 + v) - ?r\<^sup>2 * m * (?s a + ?s b)"
    by (rule alg2)
  also have "\<dots> = ?r\<^sup>2 * (1 + v)"
    by (simp only: sign mult_zero_right diff_zero)
  also have "\<dots> \<le> ?r\<^sup>2 * real_of_int n"
  proof -
    have "1 + v \<le> real_of_int n" using v assms(5) by (simp add: of_nat_diff)
    then show ?thesis by (intro mult_left_mono) simp_all
  qed
  also have "\<dots> = 1 / (4 * real_of_int n)"
    using n by (simp add: power2_eq_square field_simps)
  finally show "expect_walk ?C d n (\<lambda>ps. (rank_from_positions n ps t - 1 / 2)\<^sup>2)
      \<le> 1 / (4 * real_of_int n)" .
qed

lemma expect_walk_mono:
  assumes "\<And>p q. 0 \<le> step_prob corpus d p q" and "\<And>ps. f ps \<le> g ps"
  shows "expect_walk corpus d n f \<le> expect_walk corpus d n g"
  unfolding expect_walk_def
  by (intro sum_list_mono mult_left_mono expect_from_mono assms) simp

lemma sum_list_scale:
  "sum_list (map (\<lambda>p. w * (c * e p)) xs) = c * sum_list (map (\<lambda>p. w * e p) xs)"
  for w c :: real
  by (induction xs) (simp_all add: algebra_simps)

lemma expect_walk_scale:
  "expect_walk corpus d n (\<lambda>ps. c * f ps) = c * expect_walk corpus d n f"
  by (simp only: expect_walk_def expect_from_scale sum_list_scale)

lemma expect_walk_zero: "expect_walk corpus d n (\<lambda>ps. 0) = 0"
  using expect_walk_scale [of corpus d n 0 "\<lambda>ps. 0"] by simp

lemma two_cycle_deviation:
  assumes "a \<noteq> b" and "0 < d" and "d < 1" and "t = a \<or> t = b" and "1 \<le> n" and "0 < \<epsilon>"
  shows "0 \<le> expect_walk [(a, {|b|}), (b, {|a|})] d n
        (\<lambda>ps. if \<epsilon> \<le> \<bar>rank_from_positions n ps t - 1 / 2\<bar> then 1 else 0)"
    and "expect_walk [(a, {|b|}), (b, {|a|})] d n
        (\<lambda>ps. if \<epsilon> \<le> \<bar>rank_from_positions n ps t - 1 / 2\<bar> then 1 else 0)
      \<le> 1 / (4 * real_of_int n * \<epsilon>\<^sup>2)"
proof -
  let ?C = "[(a, {|b|}), (b, {|a|})]"
  let ?ind = "\<lambda>ps. if \<epsilon> \<le> \<bar>rank_from_positions n ps t - 1 / 2\<bar> then 1 else 0 :: real"
  note nonneg = two_cycle_step_prob_nonneg [OF assms(1-3)]
  have "expect_walk ?C d n (\<lambda>ps. 0) \<le> expect_walk ?C d n ?ind"
    by (rule expect_walk_mono [OF nonneg]) simp
  then show "0 \<le> expect_walk ?C d n ?ind" by (simp add: expect_walk_zero)
  have point: "?ind ps \<le> 1 / \<epsilon>\<^sup>2 * (rank_from_positions n ps t - 1 / 2)\<^sup>2" for ps
  proof (cases "\<epsilon> \<le> \<bar>rank_from_positions n ps t - 1 / 2\<bar>")
    case True
    then have "\<epsilon>\<^sup>2 \<le> \<bar>rank_from_positions n ps t - 1 / 2\<bar>\<^sup>2"
      using assms(6) by (intro power_mono) simp_all
    then have "\<epsilon>\<^sup>2 \<le> (rank_from_positions n ps t - 1 / 2)\<^sup>2" by simp
    then have "1 \<le> (rank_from_positions n ps t - 1 / 2)\<^sup>2 / \<epsilon>\<^sup>2"
      using assms(6) by (simp add: le_divide_eq)
    then show ?thesis using True by simp
  next
    case False
    then show ?thesis by simp
  qed
  have "expect_walk ?C d n ?ind
      \<le> expect_walk ?C d n (\<lambda>ps. 1 / \<epsilon>\<^sup>2 * (rank_from_positions n ps t - 1 / 2)\<^sup>2)"
    by (rule expect_walk_mono [OF nonneg point])
  also have "\<dots> = 1 / \<epsilon>\<^sup>2 * expect_walk ?C d n (\<lambda>ps. (rank_from_positions n ps t - 1 / 2)\<^sup>2)"
    by (rule expect_walk_scale)
  also have "\<dots> \<le> 1 / \<epsilon>\<^sup>2 * (1 / (4 * real_of_int n))"
    using two_cycle_expected_rank(2) [OF assms(1-5)] by (intro mult_left_mono) simp_all
  also have "\<dots> = 1 / (4 * real_of_int n * \<epsilon>\<^sup>2)" by simp
  finally show "expect_walk ?C d n ?ind \<le> 1 / (4 * real_of_int n * \<epsilon>\<^sup>2)" .
qed

lemma two_cycle_limit:
  assumes "a \<noteq> b" and "0 < d" and "d < 1" and "t = a \<or> t = b" and "0 < \<epsilon>"
  shows "(\<lambda>m. expect_walk [(a, {|b|}), (b, {|a|})] d (int m)
        (\<lambda>ps. if \<epsilon> \<le> \<bar>rank_from_positions (int m) ps t - 1 / 2\<bar> then 1 else 0))
      \<longlonglongrightarrow> 0"
proof (rule tendsto_sandwich [where f = "\<lambda>m. 0" and h = "\<lambda>m. 1 / (4 * \<epsilon>\<^sup>2) * (1 / real m)"])
  show "\<forall>\<^sub>F m in sequentially. 0 \<le> expect_walk [(a, {|b|}), (b, {|a|})] d (int m)
        (\<lambda>ps. if \<epsilon> \<le> \<bar>rank_from_positions (int m) ps t - 1 / 2\<bar> then 1 else 0)"
  proof (rule eventually_sequentiallyI [of 1])
    fix m :: nat
    assume "1 \<le> m"
    then have "1 \<le> int m" by simp
    then show "0 \<le> expect_walk [(a, {|b|}), (b, {|a|})] d (int m)
        (\<lambda>ps. if \<epsilon> \<le> \<bar>rank_from_positions (int m) ps t - 1 / 2\<bar> then 1 else 0)"
      using assms by (intro two_cycle_deviation(1))
  qed
  show "\<forall>\<^sub>F m in sequentially. expect_walk [(a, {|b|}), (b, {|a|})] d (int m)
        (\<lambda>ps. if \<epsilon> \<le> \<bar>rank_from_positions (int m) ps t - 1 / 2\<bar> then 1 else 0)
      \<le> 1 / (4 * \<epsilon>\<^sup>2) * (1 / real m)"
  proof (rule eventually_sequentiallyI [of 1])
    fix m :: nat
    assume "1 \<le> m"
    then have m: "1 \<le> int m" by simp
    have "expect_walk [(a, {|b|}), (b, {|a|})] d (int m)
        (\<lambda>ps. if \<epsilon> \<le> \<bar>rank_from_positions (int m) ps t - 1 / 2\<bar> then 1 else 0)
      \<le> 1 / (4 * real_of_int (int m) * \<epsilon>\<^sup>2)"
      using assms m by (intro two_cycle_deviation(2))
    then show "expect_walk [(a, {|b|}), (b, {|a|})] d (int m)
        (\<lambda>ps. if \<epsilon> \<le> \<bar>rank_from_positions (int m) ps t - 1 / 2\<bar> then 1 else 0)
      \<le> 1 / (4 * \<epsilon>\<^sup>2) * (1 / real m)"
      by (simp add: mult_ac)
  qed
  show "(\<lambda>m::nat. 0::real) \<longlonglongrightarrow> 0" by simp
  have "(\<lambda>m. 1 / (4 * \<epsilon>\<^sup>2) * (1 / real m)) \<longlonglongrightarrow> 1 / (4 * \<epsilon>\<^sup>2) * 0"
    by (intro tendsto_mult_left lim_1_over_n)
  then show "(\<lambda>m. 1 / (4 * \<epsilon>\<^sup>2) * (1 / real m)) \<longlonglongrightarrow> 0" by simp
qed

lemma two_cycle_sampler:
  assumes "a \<noteq> b" and "valid_rng g" and "1 \<le> n"
  shows "\<exists>ps. walk_positions [(a, {|b|}), (b, {|a|})] d n g = Inr ps
      \<and> length ps = nat n \<and> set ps \<subseteq> {a, b}
      \<and> ps ! 0 = (if source g (pos g) < 1 / 2 then a else b)
      \<and> (\<forall>i. Suc i < nat n \<longrightarrow> ps ! Suc i
            = (if source g (pos g + Suc i) < step_prob [(a, {|b|}), (b, {|a|})] d (ps ! i) a
               then a else b))
      \<and> sample_pagerank [(a, {|b|}), (b, {|a|})] d n g
          = Inr [(a, rank_from_positions n ps a), (b, rank_from_positions n ps b)]"
proof -
  let ?C = "[(a, {|b|}), (b, {|a|})]"
  let ?s = "if source g (pos g) < 1 / 2 then a else b"
  let ?g1 = "g\<lparr>pos := Suc (pos g)\<rparr>"
  have keys: "distinct (dict_keys ?C)" using assms(1) by simp
  have closed: "links_closed ?C" by (simp add: links_closed_def)
  have ch: "random_choice (dict_keys ?C) g = Inr (?s, ?g1)"
    using two_page_choice [OF assms(2), of a b] by simp
  have s: "?s = a \<or> ?s = b" by simp
  obtain ps where wk: "walk ?C d (nat (n - 1)) ?s ?g1 = Inr ps"
    and len: "length ps = Suc (nat (n - 1))" and hd: "ps ! 0 = ?s" and sub: "set ps \<subseteq> {a, b}"
    and steps: "\<forall>i < nat (n - 1). ps ! Suc i
            = (if source ?g1 (pos ?g1 + i) < step_prob ?C d (ps ! i) a then a else b)"
    using two_cycle_walk [OF assms(1) s, of d "nat (n - 1)" ?g1] by blast
  have 1: "walk_positions ?C d n g = Inr ps"
    unfolding walk_positions_def ch using wk by simp
  have 2: "length ps = nat n" using len assms(3) by simp
  have 3: "\<forall>i. Suc i < nat n \<longrightarrow> ps ! Suc i
      = (if source g (pos g + Suc i) < step_prob ?C d (ps ! i) a then a else b)"
    using steps assms(3) by auto
  obtain ps' where wk': "walk_positions ?C d n g = Inr ps'"
    and res: "sample_pagerank ?C d n g
        = Inr (map (\<lambda>k. (k, real (count_list (butlast ps') k) / real_of_int n)) (dict_keys ?C))"
    using sample_pagerank_eq [OF keys closed _ assms(3,2), of d] by auto
  have "ps' = ps" using wk' 1 by simp
  then have 4: "sample_pagerank ?C d n g
      = Inr [(a, rank_from_positions n ps a), (b, rank_from_positions n ps b)]"
    using res by (simp add: rank_from_positions_def)
  show ?thesis using 1 2 3 4 hd sub by blast
qed

text \<open>
  Claim C8. On the corpus of two pages that link to each other, for every damping factor in
  \<open>(0, 1)\<close>:

  \<^item> the iterative solver returns rank 1/2 for each page;

  \<^item> for every valid generator and every \<open>n \<ge> 1\<close>, the sampling estimator returns the ranks
    tallied from a walk of \<open>n\<close> positions, whose start is the first page when the first
    number of the generator is below 1/2, and whose every draw lands on the first page
    exactly when the next number is below the weight the transition model gives that page;

  \<^item> so under independent uniform numbers each draw follows the transition model, whose
    weights are \<open>(1 - d) / 2\<close> for staying and \<open>(1 + d) / 2\<close> for moving; the expected rank of
    each page is \<open>(n - 1) / (2 n)\<close>; the probability that the rank of a page is \<open>\<epsilon>\<close> or
    more away from 1/2 is at most \<open>1 / (4 n \<epsilon>\<^sup>2)\<close>, and tends to 0 as \<open>n\<close> grows.
\<close>

theorem two_cycle_ranks:
  assumes "a \<noteq> b" and "0 < d" and "d < 1" and "valid_rng g" and "1 \<le> n" and "0 < \<epsilon>"
  shows "iterate_pagerank [(a, {|b|}), (b, {|a|})] d = Some (Inr [(a, 1 / 2), (b, 1 / 2)])
    \<and> (\<exists>ps. walk_positions [(a, {|b|}), (b, {|a|})] d n g = Inr ps
          \<and> length ps = nat n \<and> set ps \<subseteq> {a, b}
          \<and> ps ! 0 = (if source g (pos g) < 1 / 2 then a else b)
          \<and> (\<forall>i. Suc i < nat n \<longrightarrow> ps ! Suc i
                = (if source g (pos g + Suc i) < step_prob [(a, {|b|}), (b, {|a|})] d (ps ! i) a
                   then a else b))
          \<and> sample_pagerank [(a, {|b|}), (b, {|a|})] d n g
              = Inr [(a, rank_from_positions n ps a), (b, rank_from_positions n ps b)])
    \<and> step_prob [(a, {|b|}), (b, {|a|})] d a a = (1 - d) / 2
    \<and> step_prob [(a, {|b|}), (b, {|a|})] d a b = (1 + d) / 2
    \<and> step_prob [(a, {|b|}), (b, {|a|})] d b a = (1 + d) / 2
    \<and> step_prob [(a, {|b|}), (b, {|a|})] d b b = (1 - d) / 2
    \<and> expect_walk [(a, {|b|}), (b, {|a|})] d n (\<lambda>ps. rank_from_positions n ps a)
        = (real_of_int n - 1) / (2 * real_of_int n)
    \<and> expect_walk [(a, {|b|}), (b, {|a|})] d n (\<lambda>ps. rank_from_positions n ps b)
        = (real_of_int n - 1) / (2 * real_of_int n)
    \<and> expect_walk [(a, {|b|}), (b, {|a|})] d n
          (\<lambda>ps. if \<epsilon> \<le> \<bar>rank_from_positions n ps a - 1 / 2\<bar> then 1 else 0)
        \<le> 1 / (4 * real_of_int n * \<epsilon>\<^sup>2)
    \<and> expect_walk [(a, {|b|}), (b, {|a|})] d n
          (\<lambda>ps. if \<epsilon> \<le> \<bar>rank_from_positions n ps b - 1 / 2\<bar> then 1 else 0)
        \<le> 1 / (4 * real_of_int n * \<epsilon>\<^sup>2)
    \<and> (\<lambda>m. expect_walk [(a, {|b|}), (b, {|a|})] d (int m)
          (\<lambda>ps. if \<epsilon> \<le> \<bar>rank_from_positions (int m) ps a - 1 / 2\<bar> then 1 else 0))
        \<longlonglongrightarrow> 0
    \<and> (\<lambda>m. expect_walk [(a, {|b|}), (b, {|a|})] d (int m)
          (\<lambda>ps. if \<epsilon> \<le> \<bar>rank_from_positions (int m) ps b - 1 / 2\<bar> then 1 else 0))
        \<longlonglongrightarrow> 0"
proof -
  have ta: "a = a \<or> a = b" and tb: "b = a \<or> b = b" by simp_all
  note solver = two_cycle_iterate [OF assms(1), of d]
  note sampler = two_cycle_sampler [OF assms(1,4,5), of d]
  note probs = two_cycle_step_prob [OF assms(1), of d]
  note mean_a = two_cycle_expected_rank(1) [OF assms(1-3) ta assms(5)]
  note mean_b = two_cycle_expected_rank(1) [OF assms(1-3) tb assms(5)]
  note dev_a = two_cycle_deviation(2) [OF assms(1-3) ta assms(5,6)]
  note dev_b = two_cycle_deviation(2) [OF assms(1-3) tb assms(5,6)]
  note lim_a = two_cycle_limit [OF assms(1-3) ta assms(6)]
  note lim_b = two_cycle_limit [OF assms(1-3) tb assms(6)]
  show ?thesis
    by (intro conjI solver sampler probs mean_a mean_b dev_a dev_b lim_a lim_b)
qed

theorem two_cycle_ranks_witness:
  "iterate_pagerank [(''A'', {|''B''|}), (''B'', {|''A''|})] (17 / 20)
      = Some (Inr [(''A'', 1 / 2), (''B'', 1 / 2)])
   \<and> (\<exists>ps. walk_positions [(''A'', {|''B''|}), (''B'', {|''A''|})] (17 / 20) 1000
            \<lparr>source = (\<lambda>i. if even i then 1 / 4 else 3 / 4), pos = 0\<rparr> = Inr ps
         \<and> length ps = nat 1000
         \<and> ps ! 0 = ''A''
         \<and> sample_pagerank [(''A'', {|''B''|}), (''B'', {|''A''|})] (17 / 20) 1000
            \<lparr>source = (\<lambda>i. if even i then 1 / 4 else 3 / 4), pos = 0\<rparr>
            = Inr [(''A'', rank_from_positions 1000 ps ''A''), (''B'', rank_from_positions 1000 ps ''B'')])
   \<and> expect_walk [(''A'', {|''B''|}), (''B'', {|''A''|})] (17 / 20) 1000
        (\<lambda>ps. rank_from_positions 1000 ps ''A'') = 999 / 2000
   \<and> expect_walk [(''A'', {|''B''|}), (''B'', {|''A''|})] (17 / 20) 1000
        (\<lambda>ps. rank_from_positions 1000 ps ''B'') = 999 / 2000
   \<and> expect_walk [(''A'', {|''B''|}), (''B'', {|''A''|})] (17 / 20) 1000
        (\<lambda>ps. if 1 / 10 \<le> \<bar>rank_from_positions 1000 ps ''A'' - 1 / 2\<bar> then 1 else 0)
      \<le> 1 / 40"
proof -
  let ?g = "\<lparr>source = (\<lambda>i::nat. if even i then 1 / 4 else 3 / 4 :: real), pos = 0\<rparr>"
  have 1: "''A'' \<noteq> ''B''" by simp
  have 2: "(0::real) < 17 / 20" and 3: "(17 / 20 :: real) < 1" by simp_all
  have 4: "valid_rng ?g" by (simp add: valid_rng_def)
  have 5: "(1::int) \<le> 1000" by simp
  have 6: "(0::real) < 1 / 10" by simp
  show ?thesis using two_cycle_ranks [OF 1 2 3 4 5 6] by (auto simp: power2_eq_square)
qed

end
